theory Spec2Isabelle
  imports Main "HOL-Library.Multiset"
begin

section \<open>GraphQL output types and the type wrapper resolver (core/unwrapper.py)\<close>

text \<open>
  The schema types of the GraphQL library, as far as the program looks at them: a named
  type of some kind, or a non-null or list wrapper around a type. The program tests
  \<open>isinstance\<close> against \<open>GraphQLNonNull\<close>, \<open>GraphQLList\<close> and \<open>GraphQLScalarType\<close>
  only, and reads the name through \<open>str\<close>.
\<close>

datatype named_kind = Scalar | Object | Interface | Union | Enum

datatype gql_type =
    GraphQLNamedType named_kind string
  | GraphQLNonNull gql_type
  | GraphQLList gql_type

fun is_scalar_type :: "gql_type \<Rightarrow> bool" where
  "is_scalar_type (GraphQLNamedType k n) = (k = Scalar)"
| "is_scalar_type (GraphQLNonNull t) = False"
| "is_scalar_type (GraphQLList t) = False"

fun is_non_null :: "gql_type \<Rightarrow> bool" where
  "is_non_null (GraphQLNonNull t) = True"
| "is_non_null t = False"

fun is_list :: "gql_type \<Rightarrow> bool" where
  "is_list (GraphQLList t) = True"
| "is_list t = False"

fun of_type :: "gql_type \<Rightarrow> gql_type" where
  "of_type (GraphQLNonNull t) = t"
| "of_type (GraphQLList t) = t"
| "of_type t = t"

datatype WrapperType = LIST | OPTIONAL

record UnwrapperResult =
  wrapper_stack :: "WrapperType list"
  inner_gql_type :: gql_type
  inner_is_primitive :: bool

lemma size_of_type_le: "size (of_type t) \<le> size t"
  by (cases t) simp_all

lemma size_of_type_list: "is_list t \<Longrightarrow> size (of_type t) < size t"
  by (cases t) simp_all

text \<open>
  \<open>Unwrapper.unwrap\<close>: one non-null layer is stripped (or \<open>OPTIONAL\<close> recorded), then a
  list layer, if there is one, is recorded and its element type unwrapped recursively.
\<close>

function unwrap :: "gql_type \<Rightarrow> UnwrapperResult" where
  "unwrap gql_type =
     (let wrappers = (if is_non_null gql_type then [] else [OPTIONAL]);
          gql_type1 = (if is_non_null gql_type then of_type gql_type else gql_type)
      in if is_list gql_type1
         then (let res = unwrap (of_type gql_type1)
               in \<lparr>wrapper_stack = wrappers @ [LIST] @ wrapper_stack res,
                   inner_gql_type = inner_gql_type res,
                   inner_is_primitive = inner_is_primitive res\<rparr>)
         else \<lparr>wrapper_stack = wrappers,
               inner_gql_type = gql_type1,
               inner_is_primitive = is_scalar_type gql_type1\<rparr>)"
  by pat_completeness auto
termination
proof (relation "measure size")
  show "wf (measure (size :: gql_type \<Rightarrow> nat))" by simp
next
  fix gql_type :: gql_type and wrappers gql_type1
  assume g: "gql_type1 = (if is_non_null gql_type then of_type gql_type else gql_type)"
    and l: "is_list gql_type1"
  have "size (of_type gql_type1) < size gql_type1" using l by (rule size_of_type_list)
  moreover have "size gql_type1 \<le> size gql_type" using g by (simp add: size_of_type_le)
  ultimately show "(of_type gql_type1, gql_type) \<in> measure size" by simp
qed

declare unwrap.simps [simp del]

text \<open>
  Re-wrapping, as the specification words it: the wrappers of the stack are applied to
  the inner type from the innermost (the last of the stack) outwards. A type is non-null
  unless an \<open>OPTIONAL\<close> wrapper says otherwise, and a \<open>LIST\<close> wrapper puts a list around
  what has been built.
\<close>

fun apply_wrapper :: "WrapperType \<Rightarrow> gql_type \<Rightarrow> gql_type" where
  "apply_wrapper OPTIONAL (GraphQLNonNull t) = t"
| "apply_wrapper OPTIONAL t = t"
| "apply_wrapper LIST t = GraphQLNonNull (GraphQLList t)"

definition rewrap :: "WrapperType list \<Rightarrow> gql_type \<Rightarrow> gql_type" where
  "rewrap ws inner = foldr apply_wrapper ws (GraphQLNonNull inner)"

section \<open>Errors, the query document and the libraries\<close>

subsection \<open>Errors and results\<close>

text \<open>
  The exceptions the program can raise. A result is \<open>None\<close> when the call does not
  return, \<open>Some (Inl e)\<close> when it raises \<open>e\<close>, \<open>Some (Inr x)\<close> when it returns \<open>x\<close>.
\<close>

datatype error =
    GraphQLSyntaxError
  | GraphQLSchemaError
  | AnonymousQueryError
  | InvalidQueryError "string list"
  | ValueError
  | IndexError
  | AttributeError

type_synonym 'a result = "(error + 'a) option"

definition bind_result :: "'a result \<Rightarrow> ('a \<Rightarrow> 'b result) \<Rightarrow> 'b result" where
  "bind_result r f = (case r of None \<Rightarrow> None | Some (Inl e) \<Rightarrow> Some (Inl e) | Some (Inr x) \<Rightarrow> f x)"

lemma bind_result_simps [simp]:
  "bind_result None f = None"
  "bind_result (Some (Inl e)) f = Some (Inl e)"
  "bind_result (Some (Inr x)) f = f x"
  by (simp_all add: bind_result_def)

lemma bind_result_cong [fundef_cong]:
  "r = r' \<Longrightarrow> (\<And>x. r' = Some (Inr x) \<Longrightarrow> f x = f' x) \<Longrightarrow> bind_result r f = bind_result r' f'"
  by (auto simp: bind_result_def split: option.splits sum.splits)

lemma bind_result_eq_Inr:
  "bind_result r f = Some (Inr y) \<longleftrightarrow> (\<exists>x. r = Some (Inr x) \<and> f x = Some (Inr y))"
  by (auto simp: bind_result_def split: option.splits sum.splits)

subsection \<open>The query document\<close>

text \<open>
  The abstract syntax of a query document, as far as the visitor looks at it. The library
  walks the document with a \<open>TypeInfo\<close> that follows the schema; what
  \<open>type_info.get_type()\<close> answers on entering a field or an inline fragment is written
  into the node here (\<open>None\<close> when it has no answer).
\<close>

datatype selection_node =
    FieldNode string "string option" "gql_type option" "selection_node list"
  | InlineFragmentNode "gql_type option" "selection_node list"
  | FragmentSpreadNode string

datatype definition_node =
    OperationDefinitionNode "string option" "selection_node list"
  | FragmentDefinitionNode string "selection_node list"

type_synonym document_node = "definition_node list"

text \<open>
  The module \<open>qenerate.plugins.pydantic_v1.mapper\<close> is taken as a parameter: its two
  functions, of which nothing is assumed but that they return a string.
\<close>

record mapper =
  graphql_primitive_to_python :: "gql_type \<Rightarrow> string"
  graphql_field_name_to_python :: "string \<Rightarrow> string"

text \<open>
  The functions of the GraphQL library that \<open>QueryParser.parse\<close> and \<open>generate\<close> call
  are parameters: \<open>parse\<close> (the text to a document, or a syntax error), \<open>validate\<close> (the
  list of validation errors) and \<open>build_client_schema\<close>.
\<close>

record ('raw, 'schema) graphql =
  graphql_parse :: "string \<Rightarrow> error + document_node"
  graphql_validate :: "'schema \<Rightarrow> document_node \<Rightarrow> string list"
  build_client_schema :: "'raw \<Rightarrow> error + 'schema"

section \<open>The intermediate representation (plugins/pydantic_v1/plugin.py)\<close>

record ParsedFieldType =
  unwrapped_python_type :: string
  wrapped_python_type :: string
  is_primitive :: bool

text \<open>
  The four node classes. Nodes are objects that refer to each other (a node holds its
  children in \<open>fields\<close> and a back-reference \<open>parent\<close>) and that are updated in place,
  so a node is a reference into a store: the store is the list of all node objects in
  the order of their creation, a reference is an index into it. \<open>gql_key\<close> and \<open>py_key\<close>
  are attributes of \<open>ParsedClassNode\<close> only; they are empty in the other classes, where
  nothing reads them.
\<close>

datatype node_class =
  ParsedNode | ParsedInlineFragmentNode | ParsedClassNode | ParsedOperationNode

type_synonym ref = nat

datatype node =
  Node (node_class: node_class) (parent: "ref option") (fields: "ref list")
       (parsed_type: ParsedFieldType) (gql_key: string) (py_key: string)

text \<open>The assignment of a new list to \<open>fields\<close>, the only attribute ever updated.\<close>

definition set_fields :: "ref list \<Rightarrow> node \<Rightarrow> node" where
  "set_fields fs n = Node (node_class n) (parent n) fs (parsed_type n) (gql_key n) (py_key n)"

type_synonym store = "node list"

definition HEADER :: string where
  \<open>HEADER = ''"""\<newline>THIS IS AN AUTO-GENERATED FILE. DO NOT MODIFY MANUALLY!\<newline>"""\<newline>''\<close>

definition IMPORTS :: string where
  \<open>IMPORTS =
     ''from typing import Optional, Union  # noqa: F401 # pylint: disable=W0611\<newline>''
     @ ''\<newline>''
     @ ''from pydantic import BaseModel, Extra, Field, Json  ''
     @ ''# noqa: F401  # pylint: disable=W0611''\<close>

definition INDENT :: string where
  "INDENT = ''    ''"

subsection \<open>Python's string and list operations\<close>

text \<open>\<open>sep.join(lines)\<close>.\<close>

fun join :: "string \<Rightarrow> string list \<Rightarrow> string" where
  "join sep [] = []"
| "join sep [x] = x"
| "join sep (x # y # ys) = x @ sep @ join sep (y # ys)"

text \<open>
  \<open>s.replace(old, new)\<close>: every occurrence of \<open>old\<close> in \<open>s\<close>, found from the left and
  not overlapping an earlier one, is replaced by \<open>new\<close>; for an empty \<open>old\<close>, \<open>new\<close> is
  put before every character and at the end.
\<close>

function replace_from :: "string \<Rightarrow> string \<Rightarrow> string \<Rightarrow> string" where
  "replace_from old new s =
     (if old = [] \<or> s = [] then s
      else if take (length old) s = old
           then new @ replace_from old new (drop (length old) s)
           else hd s # replace_from old new (tl s))"
  by pat_completeness auto
termination
  by (relation "measure (\<lambda>(old, new, s). length s)") (auto simp: neq_Nil_conv)

declare replace_from.simps [simp del]

definition replace :: "string \<Rightarrow> string \<Rightarrow> string \<Rightarrow> string" where
  "replace s old new =
     (if old = [] then new @ concat (map (\<lambda>c. c # new) s) else replace_from old new s)"

text \<open>
  \<open>xs.sort(key=key, reverse=True)\<close>: a stable sort into descending order of the keys
  (elements with equal keys keep their order).
\<close>

definition sort_reverse :: "('a \<Rightarrow> nat) \<Rightarrow> 'a list \<Rightarrow> 'a list" where
  "sort_reverse key xs = sort_key (\<lambda>a. - int (key a)) xs"

subsection \<open>Class declarations\<close>

text \<open>
  \<open>ParsedClassNode.field_type\<close>. The sort is in place: the node's \<open>fields\<close> in the
  store are replaced by the sorted list, and the new store is returned with the text.
  The key function reads the fields of the elements; what it sees of a list that is being
  sorted is not defined by Python, so the model says what the program does only for a
  node that is not among its own fields.
\<close>

definition field_type :: "store \<Rightarrow> ref \<Rightarrow> store \<times> string" where
  "field_type h self =
     (let sorted_fields = sort_reverse (\<lambda>a. length (fields (h ! a))) (fields (h ! self));
          h' = h[self := set_fields sorted_fields (h ! self)];
          unions = fold (\<lambda>field unions.
                      if node_class (h' ! field) = ParsedInlineFragmentNode
                      then unions @ [unwrapped_python_type (parsed_type (h' ! field))]
                      else unions) (fields (h' ! self)) [];
          pt = parsed_type (h' ! self)
      in if length unions > 0
         then (h', replace (wrapped_python_type pt) (unwrapped_python_type pt)
                     (''Union['' @ join '', '' (unions @ [unwrapped_python_type pt]) @ '']''))
         else (h', wrapped_python_type pt))"

text \<open>
  The loop shared by the three \<open>class_code_string\<close> methods: one line for every
  \<open>ParsedClassNode\<close> among the fields, whose \<open>field_type()\<close> call updates the store.
\<close>

fun field_lines :: "store \<Rightarrow> ref list \<Rightarrow> store \<times> string list" where
  "field_lines h [] = (h, [])"
| "field_lines h (field # rest) =
     (if node_class (h ! field) = ParsedClassNode
      then (let (h1, ft) = field_type h field;
                line = INDENT @ py_key (h1 ! field) @ '': '' @ ft @ '' = ''
                       @ ''Field(..., alias='' @ [CHR 0x22] @ gql_key (h1 ! field)
                       @ [CHR 0x22] @ '')'';
                (h2, lines) = field_lines h1 rest
            in (h2, line # lines))
      else field_lines h rest)"

definition config_lines :: "string list" where
  "config_lines =
     ['''',
      INDENT @ ''class Config:'',
      INDENT @ INDENT @ ''smart_union = True'',
      INDENT @ INDENT @ ''extra = Extra.forbid'']"

definition class_code :: "store \<Rightarrow> ref \<Rightarrow> string \<Rightarrow> store \<times> string" where
  "class_code h self header =
     (let (h', lines) = field_lines h (fields (h ! self))
      in (h', join ''\<newline>'' ([''\<newline>\<newline>'', header] @ lines @ config_lines)))"

text \<open>
  \<open>class_code_string\<close>, by the class of the node. A node object and a
  \<open>ParsedFieldType\<close> are always true in a condition, so \<open>not (self.parent and
  self.parsed_type)\<close> is \<open>self.parent is None\<close>.
\<close>

definition class_code_string :: "store \<Rightarrow> ref \<Rightarrow> store \<times> string" where
  "class_code_string h self =
     (case node_class (h ! self) of
        ParsedNode \<Rightarrow> (h, '''')
      | ParsedInlineFragmentNode \<Rightarrow>
          (case parent (h ! self) of
             None \<Rightarrow> (h, '''')
           | Some p \<Rightarrow>
               if is_primitive (parsed_type (h ! self)) then (h, '''')
               else class_code h self
                      (''class '' @ unwrapped_python_type (parsed_type (h ! self))
                       @ ''('' @ unwrapped_python_type (parsed_type (h ! p)) @ ''):''))
      | ParsedClassNode \<Rightarrow>
          if is_primitive (parsed_type (h ! self)) then (h, '''')
          else class_code h self
                 (''class '' @ unwrapped_python_type (parsed_type (h ! self))
                  @ ''(BaseModel):'')
      | ParsedOperationNode \<Rightarrow>
          class_code h self
            (''class '' @ unwrapped_python_type (parsed_type (h ! self))
             @ ''Query(BaseModel):''))"

subsection \<open>The traversal of the emitter\<close>

text \<open>
  One loop of \<open>_traverse\<close> over the children: \<open>want_fragment\<close> says which of the two
  loops it is. \<open>rec\<close> is the recursive call; \<open>None\<close> is a call that does not return.
\<close>

fun traverse_loop ::
  "(store \<Rightarrow> ref \<Rightarrow> (store \<times> string) option) \<Rightarrow> bool \<Rightarrow> store \<Rightarrow> string \<Rightarrow> ref list
   \<Rightarrow> (store \<times> string) option" where
  "traverse_loop rec want_fragment h result [] = Some (h, result)"
| "traverse_loop rec want_fragment h result (child # rest) =
     (if (node_class (h ! child) = ParsedInlineFragmentNode) = want_fragment
      then (case rec h child of
              None \<Rightarrow> None
            | Some (h', text) \<Rightarrow> traverse_loop rec want_fragment h' (result @ text) rest)
      else traverse_loop rec want_fragment h result rest)"

text \<open>
  \<open>PydanticV1Plugin._traverse\<close>. The recursion follows the references of the store, so
  it takes fuel: the depth of calls allowed. Running out of it is \<open>None\<close>.
\<close>

fun traverse :: "nat \<Rightarrow> store \<Rightarrow> ref \<Rightarrow> (store \<times> string) option" where
  "traverse 0 h node = None"
| "traverse (Suc fuel) h node =
     (case traverse_loop (traverse fuel) False h '''' (fields (h ! node)) of
        None \<Rightarrow> None
      | Some (h1, result1) \<Rightarrow>
          (let (h2, code) = class_code_string h1 node
           in traverse_loop (traverse fuel) True h2 (result1 @ code) (fields (h2 ! node))))"

section \<open>The selection-tree builder\<close>

subsection \<open>The visitor\<close>

text \<open>
  The state of \<open>FieldToTypeMatcherVisitor\<close>: the store of the nodes created so far, the
  root \<open>self.parsed\<close>, the cursor \<open>self.parent\<close> and the deduplication cache.
\<close>

datatype visitor =
  Visitor (nodes: store) (parsed: ref) (self_parent: "ref option")
          (deduplication_cache: "string set")

definition init_visitor :: visitor where
  "init_visitor =
     Visitor [Node ParsedNode None []
                \<lparr>unwrapped_python_type = '''', wrapped_python_type = '''',
                 is_primitive = False\<rparr> '''' '''']
       0 (Some 0) {}"

text \<open>\<open>str(graphql_type)\<close>, as the library defines it.\<close>

fun str_of :: "gql_type \<Rightarrow> string" where
  "str_of (GraphQLNamedType k n) = n"
| "str_of (GraphQLNonNull t) = str_of t @ ''!''"
| "str_of (GraphQLList t) = ''['' @ str_of t @ '']''"

text \<open>
  The loop of \<open>_to_python_type\<close>, which follows the \<open>parent\<close> references of the store:
  \<open>while cur and cur.parent and class_name in self.deduplication_cache\<close>.
\<close>

partial_function (option) dedup_loop ::
  "store \<Rightarrow> string set \<Rightarrow> ref option \<Rightarrow> string \<Rightarrow> string option" where
  "dedup_loop h cache cur class_name =
     (case cur of
        None \<Rightarrow> Some class_name
      | Some c \<Rightarrow>
          (if parent (h ! c) \<noteq> None \<and> class_name \<in> cache
           then dedup_loop h cache (parent (h ! c))
                  (unwrapped_python_type (parsed_type (h ! c)) @ ''_'' @ class_name)
           else Some class_name))"

declare dedup_loop.simps [code]

text \<open>
  The class name before deduplication: \<open>str(graphql_type).replace("_", "")\<close>, then
  \<open>f"{class_name[:-2]}V{class_name[-1]}"\<close>, where \<open>class_name[-1]\<close> raises on the empty
  string.
\<close>

definition class_name_of :: "gql_type \<Rightarrow> error + string" where
  "class_name_of graphql_type =
     (let class_name = filter (\<lambda>c. c \<noteq> CHR ''_'') (str_of graphql_type)
      in if class_name = [] then Inl IndexError
         else Inr (take (length class_name - 2) class_name @ ''V'' @ [last class_name]))"

definition to_python_type :: "mapper \<Rightarrow> visitor \<Rightarrow> gql_type \<Rightarrow> (visitor \<times> string) result" where
  "to_python_type m v graphql_type =
     (if is_scalar_type graphql_type
      then Some (Inr (v, graphql_primitive_to_python m graphql_type))
      else (case class_name_of graphql_type of
              Inl e \<Rightarrow> Some (Inl e)
            | Inr class_name \<Rightarrow>
                (case dedup_loop (nodes v) (deduplication_cache v) (self_parent v) class_name of
                   None \<Rightarrow> None
                 | Some class_name' \<Rightarrow>
                     Some (Inr (Visitor (nodes v) (parsed v) (self_parent v)
                                  (insert class_name' (deduplication_cache v)),
                                class_name')))))"

text \<open>The last step of \<open>_parse_type\<close>: the \<open>if\<close>/\<open>elif\<close> chain over the two flags.\<close>

definition rewrap_type :: "bool \<Rightarrow> bool \<Rightarrow> string \<Rightarrow> string" where
  "rewrap_type is_optional is_list' wrapped_type =
     (if is_optional \<and> is_list' then ''Optional[list['' @ wrapped_type @ '']]''
      else if is_optional then ''Optional['' @ wrapped_type @ '']''
      else if is_list' then ''list['' @ wrapped_type @ '']''
      else wrapped_type)"

text \<open>The type that is left when at most one non-null and then one list layer are stripped.\<close>

definition strip_non_null :: "gql_type \<Rightarrow> gql_type" where
  "strip_non_null t = (if is_non_null t then of_type t else t)"

definition strip_list :: "gql_type \<Rightarrow> gql_type" where
  "strip_list t = (if is_list t then of_type t else t)"

lemma size_strip_further:
  assumes "is_non_null (strip_list (strip_non_null t)) \<or> is_list (strip_list (strip_non_null t))"
  shows "size (strip_list (strip_non_null t)) < size t"
proof (cases t)
  case (GraphQLNamedType k n)
  with assms show ?thesis by (simp add: strip_non_null_def strip_list_def)
next
  case (GraphQLNonNull u)
  then show ?thesis by (cases u) (simp_all add: strip_non_null_def strip_list_def)
next
  case (GraphQLList e)
  then show ?thesis by (simp add: strip_non_null_def strip_list_def)
qed

function parse_type :: "mapper \<Rightarrow> visitor \<Rightarrow> gql_type \<Rightarrow> (visitor \<times> ParsedFieldType) result" where
  "parse_type m v graphql_type =
     (let is_optional = \<not> is_non_null graphql_type;
          is_list' = is_list (strip_non_null graphql_type);
          graphql_type' = strip_list (strip_non_null graphql_type);
          needs_further_unwrapping = (is_non_null graphql_type' \<or> is_list graphql_type')
      in if needs_further_unwrapping
         then bind_result (parse_type m v graphql_type')
                (\<lambda>(v', parsed_of_type).
                   Some (Inr (v',
                     \<lparr>unwrapped_python_type = unwrapped_python_type parsed_of_type,
                      wrapped_python_type =
                        rewrap_type is_optional is_list' (wrapped_python_type parsed_of_type),
                      is_primitive = is_primitive parsed_of_type\<rparr>)))
         else bind_result (to_python_type m v graphql_type')
                (\<lambda>(v', unwrapped_type).
                   Some (Inr (v',
                     \<lparr>unwrapped_python_type = unwrapped_type,
                      wrapped_python_type = rewrap_type is_optional is_list' unwrapped_type,
                      is_primitive = is_scalar_type graphql_type'\<rparr>))))"
  by pat_completeness auto
termination
  by (relation "measure (\<lambda>(m, v, t). size t)") (auto intro: size_strip_further)

declare parse_type.simps [simp del]

text \<open>
  The end of the three \<open>enter\<close> methods: \<open>self.parent.fields.append(current)\<close> and
  \<open>self.parent = current\<close>, for the node \<open>current\<close> just created. With no cursor the
  attribute access raises.
\<close>

definition append_current :: "visitor \<Rightarrow> node \<Rightarrow> visitor result" where
  "append_current v current =
     (case self_parent v of
        None \<Rightarrow> Some (Inl AttributeError)
      | Some p \<Rightarrow>
          (let cur = length (nodes v);
               h = nodes v @ [current]
           in Some (Inr (Visitor (h[p := set_fields (fields (h ! p) @ [cur]) (h ! p)])
                           (parsed v) (Some cur) (deduplication_cache v)))))"

definition enter_inline_fragment :: "mapper \<Rightarrow> visitor \<Rightarrow> gql_type option \<Rightarrow> visitor result" where
  "enter_inline_fragment m v graphql_type =
     (case graphql_type of
        None \<Rightarrow> Some (Inl ValueError)
      | Some t \<Rightarrow>
          bind_result (parse_type m v t)
            (\<lambda>(v', field_type).
               append_current v'
                 (Node ParsedInlineFragmentNode (self_parent v') [] field_type '''' '''')))"

definition enter_operation_definition :: "visitor \<Rightarrow> string option \<Rightarrow> visitor result" where
  "enter_operation_definition v name =
     (case name of
        None \<Rightarrow> Some (Inl ValueError)
      | Some n \<Rightarrow>
          append_current v
            (Node ParsedOperationNode (self_parent v) []
               \<lparr>unwrapped_python_type = n,
                wrapped_python_type = ''Optional[list['' @ n @ '']]'',
                is_primitive = False\<rparr> '''' ''''))"

definition enter_field ::
  "mapper \<Rightarrow> visitor \<Rightarrow> string \<Rightarrow> string option \<Rightarrow> gql_type option \<Rightarrow> visitor result" where
  "enter_field m v name alias graphql_type =
     (case graphql_type of
        None \<Rightarrow> Some (Inl ValueError)
      | Some t \<Rightarrow>
          bind_result (parse_type m v t)
            (\<lambda>(v', field_type).
               (let py_key = graphql_field_name_to_python m name;
                    gql_key = (case alias of Some a \<Rightarrow> a | None \<Rightarrow> name)
                in append_current v'
                     (Node ParsedClassNode (self_parent v') [] field_type gql_key py_key))))"

text \<open>
  \<open>leave_inline_fragment\<close>, \<open>leave_operation_definition\<close> and \<open>leave_field\<close> have one
  body: \<open>self.parent = self.parent.parent if self.parent else self.parent\<close>.
\<close>

definition leave :: "visitor \<Rightarrow> visitor" where
  "leave v =
     Visitor (nodes v) (parsed v)
       (case self_parent v of None \<Rightarrow> None | Some c \<Rightarrow> parent (nodes v ! c))
       (deduplication_cache v)"

text \<open>
  The library's \<open>visit\<close>: each node is entered, its selections are visited in order, and
  it is left. The visitor has no method for a fragment spread or a fragment definition,
  but the selections of a fragment definition are visited as any others.
\<close>

fun visit_selection :: "mapper \<Rightarrow> visitor \<Rightarrow> selection_node \<Rightarrow> visitor result"
  and visit_selections :: "mapper \<Rightarrow> visitor \<Rightarrow> selection_node list \<Rightarrow> visitor result" where
  "visit_selection m v (FieldNode name alias graphql_type selections) =
     bind_result (enter_field m v name alias graphql_type)
       (\<lambda>v1. bind_result (visit_selections m v1 selections) (\<lambda>v2. Some (Inr (leave v2))))"
| "visit_selection m v (InlineFragmentNode graphql_type selections) =
     bind_result (enter_inline_fragment m v graphql_type)
       (\<lambda>v1. bind_result (visit_selections m v1 selections) (\<lambda>v2. Some (Inr (leave v2))))"
| "visit_selection m v (FragmentSpreadNode name) = Some (Inr v)"
| "visit_selections m v [] = Some (Inr v)"
| "visit_selections m v (s # rest) =
     bind_result (visit_selection m v s) (\<lambda>v1. visit_selections m v1 rest)"

fun visit_definition :: "mapper \<Rightarrow> visitor \<Rightarrow> definition_node \<Rightarrow> visitor result" where
  "visit_definition m v (OperationDefinitionNode name selections) =
     bind_result (enter_operation_definition v name)
       (\<lambda>v1. bind_result (visit_selections m v1 selections) (\<lambda>v2. Some (Inr (leave v2))))"
| "visit_definition m v (FragmentDefinitionNode name selections) =
     visit_selections m v selections"

fun visit :: "mapper \<Rightarrow> visitor \<Rightarrow> document_node \<Rightarrow> visitor result" where
  "visit m v [] = Some (Inr v)"
| "visit m v (d # rest) = bind_result (visit_definition m v d) (\<lambda>v1. visit m v1 rest)"

subsection \<open>The parser and the plugin\<close>

text \<open>
  The library's \<open>get_operation_ast(document_ast)\<close> with no operation name: the
  operation definition of the document if it has exactly one, otherwise \<open>None\<close>.
\<close>

fun is_operation :: "definition_node \<Rightarrow> bool" where
  "is_operation (OperationDefinitionNode name selections) = True"
| "is_operation (FragmentDefinitionNode name selections) = False"

fun operation_name :: "definition_node \<Rightarrow> string option" where
  "operation_name (OperationDefinitionNode name selections) = name"
| "operation_name (FragmentDefinitionNode name selections) = Some name"

definition get_operation_ast :: "document_node \<Rightarrow> definition_node option" where
  "get_operation_ast document_ast =
     (case filter is_operation document_ast of [operation] \<Rightarrow> Some operation | _ \<Rightarrow> None)"

definition QueryParser_parse ::
  "('raw, 'schema) graphql \<Rightarrow> mapper \<Rightarrow> string \<Rightarrow> 'schema \<Rightarrow> (store \<times> ref) result" where
  "QueryParser_parse lib m query schema =
     (case graphql_parse lib query of
        Inl e \<Rightarrow> Some (Inl e)
      | Inr document_ast \<Rightarrow>
          (let operation = get_operation_ast document_ast
           in if operation \<noteq> None \<and> operation_name (the operation) = None
              then Some (Inl AnonymousQueryError)
              else (let errors = graphql_validate lib schema document_ast
                    in if errors \<noteq> [] then Some (Inl (InvalidQueryError errors))
                       else bind_result (visit m init_visitor document_ast)
                              (\<lambda>visitor. Some (Inr (nodes visitor, parsed visitor))))))"

text \<open>
  \<open>PydanticV1Plugin.generate\<close>; \<open>fuel\<close> is the depth allowed to \<open>_traverse\<close>.
\<close>

definition generate ::
  "nat \<Rightarrow> ('raw, 'schema) graphql \<Rightarrow> mapper \<Rightarrow> string \<Rightarrow> 'raw \<Rightarrow> string result" where
  "generate fuel lib m query raw_schema =
     (case build_client_schema lib raw_schema of
        Inl e \<Rightarrow> Some (Inl e)
      | Inr schema \<Rightarrow>
          bind_result (QueryParser_parse lib m query schema)
            (\<lambda>(h, ast). case traverse fuel h ast of
                           None \<Rightarrow> None
                         | Some (h', text) \<Rightarrow> Some (Inr (HEADER @ IMPORTS @ text @ ''\<newline>''))))"

section \<open>Definitions for the statements\<close>

text \<open>
  The class name as the specification derives it from a string: the string without its
  last two characters, then \<open>V\<close>, then its last character.
\<close>

definition spec_class_name :: "string \<Rightarrow> string" where
  "spec_class_name s = butlast (butlast s) @ ''V'' @ [last s]"

text \<open>A mapper for the examples: the primitive types of the usual table, keys as they are.\<close>

definition example_mapper :: mapper where
  "example_mapper =
     \<lparr>graphql_primitive_to_python =
        (\<lambda>t. if str_of t = ''String'' then ''str''
             else if str_of t = ''Int'' then ''int''
             else str_of t),
      graphql_field_name_to_python = (\<lambda>name. name)\<rparr>"

text \<open>
  The innermost type \<open>_parse_type\<close> resolves, and the type expression the specification
  describes around the resolved name \<open>bottom\<close>: at each level \<open>Optional[list[...]]\<close> when
  the level is both optional and a list, \<open>Optional[...]\<close> when it is only optional,
  \<open>list[...]\<close> when it is only a list, and nothing otherwise.
\<close>

function bottom_type :: "gql_type \<Rightarrow> gql_type" where
  "bottom_type t =
     (let rest = strip_list (strip_non_null t)
      in if is_non_null rest \<or> is_list rest then bottom_type rest else rest)"
  by pat_completeness auto
termination
  by (relation "measure size") (auto intro: size_strip_further)

declare bottom_type.simps [simp del]

function type_expr :: "gql_type \<Rightarrow> string \<Rightarrow> string" where
  "type_expr t bottom =
     (let optional = \<not> is_non_null t;
          lst = is_list (strip_non_null t);
          rest = strip_list (strip_non_null t);
          inner = (if is_non_null rest \<or> is_list rest then type_expr rest bottom else bottom)
      in if optional \<and> lst then ''Optional[list['' @ inner @ '']]''
         else if optional \<and> \<not> lst then ''Optional['' @ inner @ '']''
         else if \<not> optional \<and> lst then ''list['' @ inner @ '']''
         else inner)"
  by pat_completeness auto
termination
  by (relation "measure (\<lambda>(t, bottom). size t)") (auto intro: size_strip_further)

declare type_expr.simps [simp del]

text \<open>
  Example documents, with the types a schema would give their fields:
  \<^item> \<open>{ field }\<close>, an anonymous operation;
  \<^item> \<open>query Q { missing }\<close>, whose field the schema does not have;
  \<^item> \<open>query Q { a { b { c } } }\<close>;
  \<^item> \<open>query Q { pet { name ... on Dog { bark } ... on Cat { meow lives } } }\<close>;
  \<^item> \<open>query Q { a { x } b: a { x } c: a { x } }\<close>, one object type selected three times.
\<close>

definition doc_anonymous :: document_node where
  "doc_anonymous =
     [OperationDefinitionNode None
        [FieldNode ''field'' None (Some (GraphQLNamedType Scalar ''String'')) []]]"

definition doc_missing :: document_node where
  "doc_missing = [OperationDefinitionNode (Some ''Q'') [FieldNode ''missing'' None None []]]"

definition doc_nested :: document_node where
  "doc_nested =
     [OperationDefinitionNode (Some ''Q'')
        [FieldNode ''a'' None (Some (GraphQLNamedType Object ''A_v1''))
           [FieldNode ''b'' None
              (Some (GraphQLNonNull (GraphQLList (GraphQLNonNull
                 (GraphQLNamedType Object ''B_v1'')))))
              [FieldNode ''c'' None (Some (GraphQLNamedType Scalar ''String'')) []]]]]"

definition doc_pet :: document_node where
  "doc_pet =
     [OperationDefinitionNode (Some ''Q'')
        [FieldNode ''pet'' None (Some (GraphQLNamedType Interface ''Pet_v1''))
           [FieldNode ''name'' None (Some (GraphQLNamedType Scalar ''String'')) [],
            InlineFragmentNode (Some (GraphQLNamedType Object ''Dog_v1''))
              [FieldNode ''bark'' None (Some (GraphQLNamedType Scalar ''String'')) []],
            InlineFragmentNode (Some (GraphQLNamedType Object ''Cat_v1''))
              [FieldNode ''meow'' None (Some (GraphQLNamedType Scalar ''String'')) [],
               FieldNode ''lives'' None (Some (GraphQLNamedType Scalar ''Int'')) []]]]]"

definition doc_thrice :: document_node where
  "doc_thrice =
     [OperationDefinitionNode (Some ''Q'')
        [FieldNode ''a'' None (Some (GraphQLNamedType Object ''App_v1''))
           [FieldNode ''x'' None (Some (GraphQLNamedType Scalar ''Int'')) []],
         FieldNode ''a'' (Some ''b'') (Some (GraphQLNamedType Object ''App_v1''))
           [FieldNode ''x'' None (Some (GraphQLNamedType Scalar ''Int'')) []],
         FieldNode ''a'' (Some ''c'') (Some (GraphQLNamedType Object ''App_v1''))
           [FieldNode ''x'' None (Some (GraphQLNamedType Scalar ''Int'')) []]]]"

text \<open>
  A stand-in for the GraphQL library in the examples: it parses the example texts, and
  validation reports an error for the document with the missing field.
\<close>

definition example_graphql :: "(unit, unit) graphql" where
  "example_graphql =
     \<lparr>graphql_parse =
        (\<lambda>query. if query = ''{ field }'' then Inr doc_anonymous
                 else if query = ''query Q { missing }'' then Inr doc_missing
                 else if query = ''query Q { a { b { c } } }'' then Inr doc_nested
                 else if query = ''query Q { pet { name ... on Dog { bark } ... on Cat { meow lives } } }''
                 then Inr doc_pet
                 else if query = ''query Q { a { x } b: a { x } c: a { x } }'' then Inr doc_thrice
                 else Inl GraphQLSyntaxError),
      graphql_validate =
        (\<lambda>schema document_ast.
           if document_ast = doc_missing then [''Cannot query field missing on type Query.'']
           else []),
      build_client_schema = (\<lambda>raw. Inr ())\<rparr>"

text \<open>
  What the emitter may do to a node: everything stays as it was but the order of the
  fields, and that order too unless the node is a \<open>ParsedClassNode\<close>.
\<close>

definition same_but_order :: "node \<Rightarrow> node \<Rightarrow> bool" where
  "same_but_order n n' =
     (node_class n' = node_class n \<and> parent n' = parent n
      \<and> parsed_type n' = parsed_type n \<and> gql_key n' = gql_key n \<and> py_key n' = py_key n
      \<and> mset (fields n') = mset (fields n)
      \<and> (fields n' = fields n \<or> node_class n = ParsedClassNode))"

definition reordered :: "store \<Rightarrow> store \<Rightarrow> bool" where
  "reordered h h' = (length h' = length h \<and> list_all2 same_but_order h h')"

text \<open>The effect of \<open>field_type\<close> on the store: the fields of the node, sorted.\<close>

definition sort_fields :: "store \<Rightarrow> ref \<Rightarrow> store" where
  "sort_fields h self =
     h[self := set_fields (sort_reverse (\<lambda>a. length (fields (h ! a))) (fields (h ! self)))
                 (h ! self)]"

text \<open>The store \<open>QueryParser.parse\<close> builds for the example with the inline fragments.\<close>

definition store_pet :: store where
  "store_pet =
     [Node ParsedNode None [1]
        \<lparr>unwrapped_python_type = '''', wrapped_python_type = '''', is_primitive = False\<rparr>
        '''' '''',
      Node ParsedOperationNode (Some 0) [2]
        \<lparr>unwrapped_python_type = ''Q'', wrapped_python_type = ''Optional[list[Q]]'',
         is_primitive = False\<rparr> '''' '''',
      Node ParsedClassNode (Some 1) [3, 4, 6]
        \<lparr>unwrapped_python_type = ''PetV1'', wrapped_python_type = ''Optional[PetV1]'',
         is_primitive = False\<rparr> ''pet'' ''pet'',
      Node ParsedClassNode (Some 2) []
        \<lparr>unwrapped_python_type = ''str'', wrapped_python_type = ''Optional[str]'',
         is_primitive = True\<rparr> ''name'' ''name'',
      Node ParsedInlineFragmentNode (Some 2) [5]
        \<lparr>unwrapped_python_type = ''DogV1'', wrapped_python_type = ''Optional[DogV1]'',
         is_primitive = False\<rparr> '''' '''',
      Node ParsedClassNode (Some 4) []
        \<lparr>unwrapped_python_type = ''str'', wrapped_python_type = ''Optional[str]'',
         is_primitive = True\<rparr> ''bark'' ''bark'',
      Node ParsedInlineFragmentNode (Some 2) [7, 8]
        \<lparr>unwrapped_python_type = ''CatV1'', wrapped_python_type = ''Optional[CatV1]'',
         is_primitive = False\<rparr> '''' '''',
      Node ParsedClassNode (Some 6) []
        \<lparr>unwrapped_python_type = ''str'', wrapped_python_type = ''Optional[str]'',
         is_primitive = True\<rparr> ''meow'' ''meow'',
      Node ParsedClassNode (Some 6) []
        \<lparr>unwrapped_python_type = ''int'', wrapped_python_type = ''Optional[int]'',
         is_primitive = True\<rparr> ''lives'' ''lives'']"

text \<open>
  The shape of a tree in the store: a skeleton names the root and, in the order of its
  fields, the skeletons of its children. A store holds a tree with this skeleton when
  every node of the skeleton is in the store with exactly these children, and no node
  occurs twice.
\<close>

datatype skeleton = Sk ref "skeleton list"

fun root :: "skeleton \<Rightarrow> ref" where
  "root (Sk a ts) = a"

fun addrs :: "skeleton \<Rightarrow> ref list" where
  "addrs (Sk a ts) = a # concat (map addrs ts)"

fun strict_addrs :: "skeleton \<Rightarrow> ref list" where
  "strict_addrs (Sk a ts) = concat (map addrs ts)"

fun subtrees :: "skeleton \<Rightarrow> skeleton list" where
  "subtrees (Sk a ts) = Sk a ts # concat (map subtrees ts)"

fun height :: "skeleton \<Rightarrow> nat" where
  "height (Sk a ts) = Suc (foldr max (map height ts) 0)"

fun shape :: "store \<Rightarrow> skeleton \<Rightarrow> bool" where
  "shape h (Sk a ts) =
     (a < length h \<and> fields (h ! a) = map root ts \<and> list_all (shape h) ts)"

definition tree :: "store \<Rightarrow> skeleton \<Rightarrow> bool" where
  "tree h t = (shape h t \<and> distinct (addrs t))"

text \<open>
  The order of the declarations as the specification describes it: at each node, the
  children that are no inline fragments, each with all below it, then the node itself,
  then the children that are inline fragments, each with all below it. The declaration of
  a node is the text of its \<open>class_code_string\<close>.
\<close>

fun emit_order :: "store \<Rightarrow> skeleton \<Rightarrow> ref list" where
  "emit_order h (Sk a ts) =
     concat (map (emit_order h)
               (filter (\<lambda>t. node_class (h ! root t) \<noteq> ParsedInlineFragmentNode) ts))
     @ [a]
     @ concat (map (emit_order h)
                 (filter (\<lambda>t. node_class (h ! root t) = ParsedInlineFragmentNode) ts))"

text \<open>The line of a class declaration for the field \<open>field\<close>.\<close>

definition field_line :: "store \<Rightarrow> ref \<Rightarrow> string" where
  "field_line h field =
     INDENT @ py_key (h ! field) @ '': '' @ snd (field_type h field) @ '' = ''
     @ ''Field(..., alias='' @ [CHR 0x22] @ gql_key (h ! field) @ [CHR 0x22] @ '')''"

definition class_declaration :: "store \<Rightarrow> ref \<Rightarrow> string" where
  "class_declaration h a = snd (class_code_string h a)"

definition emitted :: "store \<Rightarrow> skeleton \<Rightarrow> string" where
  "emitted h t = concat (map (class_declaration h) (emit_order h t))"

text \<open>\<open>x\<close> stands before \<open>y\<close> in a list.\<close>

definition before :: "'a \<Rightarrow> 'a \<Rightarrow> 'a list \<Rightarrow> bool" where
  "before x y l = (\<exists>xs ys zs. l = xs @ [x] @ ys @ [y] @ zs)"

text \<open>
  The store \<open>QueryParser.parse\<close> builds for \<open>query Q { a { b { c } } }\<close>, and the
  skeletons of the two example trees.
\<close>

definition store_nested :: store where
  "store_nested =
     [Node ParsedNode None [1]
        \<lparr>unwrapped_python_type = '''', wrapped_python_type = '''', is_primitive = False\<rparr>
        '''' '''',
      Node ParsedOperationNode (Some 0) [2]
        \<lparr>unwrapped_python_type = ''Q'', wrapped_python_type = ''Optional[list[Q]]'',
         is_primitive = False\<rparr> '''' '''',
      Node ParsedClassNode (Some 1) [3]
        \<lparr>unwrapped_python_type = ''AV1'', wrapped_python_type = ''Optional[AV1]'',
         is_primitive = False\<rparr> ''a'' ''a'',
      Node ParsedClassNode (Some 2) [4]
        \<lparr>unwrapped_python_type = ''BV1'', wrapped_python_type = ''list[BV1]'',
         is_primitive = False\<rparr> ''b'' ''b'',
      Node ParsedClassNode (Some 3) []
        \<lparr>unwrapped_python_type = ''str'', wrapped_python_type = ''Optional[str]'',
         is_primitive = True\<rparr> ''c'' ''c'']"

definition skeleton_nested :: skeleton where
  "skeleton_nested = Sk 0 [Sk 1 [Sk 2 [Sk 3 [Sk 4 []]]]]"

definition skeleton_pet :: skeleton where
  "skeleton_pet = Sk 0 [Sk 1 [Sk 2 [Sk 3 [], Sk 4 [Sk 5 []], Sk 6 [Sk 7 [], Sk 8 []]]]]"

text \<open>
  A well-formed store: the first node is the root and has no parent; every other node
  has a parent that was created before it; a node is among the fields of another
  exactly when that other node is its parent; and no node is twice among the fields of
  a node.
\<close>

definition well_formed :: "store \<Rightarrow> bool" where
  "well_formed h =
     (h \<noteq> [] \<and> parent (h ! 0) = None
      \<and> (\<forall>c<length h. 0 < c \<longrightarrow> (\<exists>p<c. parent (h ! c) = Some p))
      \<and> (\<forall>a<length h. \<forall>c. c \<in> set (fields (h ! a)) \<longleftrightarrow>
             (c < length h \<and> parent (h ! c) = Some a))
      \<and> (\<forall>a<length h. distinct (fields (h ! a))))"

text \<open>
  The state of the visitor between two calls of the library: the store is well formed,
  the root is the empty \<open>ParsedNode\<close> the constructor made, and the cursor is a node of
  the store.
\<close>

definition visitor_ok :: "visitor \<Rightarrow> bool" where
  "visitor_ok v =
     (well_formed (nodes v) \<and> parsed v = 0
      \<and> node_class (nodes v ! 0) = ParsedNode
      \<and> parsed_type (nodes v ! 0) =
          \<lparr>unwrapped_python_type = '''', wrapped_python_type = '''', is_primitive = False\<rparr>
      \<and> (\<exists>c<length (nodes v). self_parent v = Some c))"

text \<open>
  The store with a new node at its end and at the end of the fields of the node \<open>p\<close>.
\<close>

definition append_node :: "store \<Rightarrow> ref \<Rightarrow> node \<Rightarrow> store" where
  "append_node h p new =
     (h @ [new])[p := set_fields (fields (h ! p) @ [length h]) (h ! p)]"

text \<open>
  What an \<open>enter\<close> method does to the state: a new node, whose parent is the cursor and
  which has no fields yet, is put at the end of the store and of the fields of the
  cursor, and is the new cursor.
\<close>

definition entered :: "visitor \<Rightarrow> visitor \<Rightarrow> bool" where
  "entered v v' =
     (\<exists>p new. self_parent v = Some p \<and> parent new = Some p \<and> fields new = []
        \<and> nodes v' = append_node (nodes v) p new
        \<and> self_parent v' = Some (length (nodes v)) \<and> parsed v' = parsed v)"

text \<open>A state with the same store, root and cursor.\<close>

definition same_place :: "visitor \<Rightarrow> visitor \<Rightarrow> bool" where
  "same_place v v' =
     (nodes v' = nodes v \<and> parsed v' = parsed v \<and> self_parent v' = self_parent v)"

text \<open>
  What the visit of a selection, with its matching \<open>leave\<close>, does to the state: the
  cursor is where it was, nodes were only added, and no parent reference changed.
\<close>

definition visited :: "visitor \<Rightarrow> visitor \<Rightarrow> bool" where
  "visited v v' =
     (visitor_ok v' \<and> self_parent v' = self_parent v
      \<and> length (nodes v) \<le> length (nodes v')
      \<and> (\<forall>a<length (nodes v). parent (nodes v' ! a) = parent (nodes v ! a)))"

text \<open>
  A document the visitor can resolve: every field and inline fragment has a type, the
  innermost type of which is a scalar or has a name with a character other than the
  underscore, and every operation has a name.
\<close>

fun resolvable_type :: "gql_type option \<Rightarrow> bool" where
  "resolvable_type None = False"
| "resolvable_type (Some t) =
     (is_scalar_type (bottom_type t) \<or> class_name_of (bottom_type t) \<noteq> Inl IndexError)"

fun resolvable_selection :: "selection_node \<Rightarrow> bool" where
  "resolvable_selection (FieldNode name alias graphql_type selections) =
     (resolvable_type graphql_type \<and> list_all resolvable_selection selections)"
| "resolvable_selection (InlineFragmentNode graphql_type selections) =
     (resolvable_type graphql_type \<and> list_all resolvable_selection selections)"
| "resolvable_selection (FragmentSpreadNode name) = True"

fun resolvable_definition :: "definition_node \<Rightarrow> bool" where
  "resolvable_definition (OperationDefinitionNode name selections) =
     (name \<noteq> None \<and> list_all resolvable_selection selections)"
| "resolvable_definition (FragmentDefinitionNode name selections) =
     list_all resolvable_selection selections"

text \<open>The skeleton of what is below a node of the store.\<close>

function skeleton_of :: "store \<Rightarrow> ref \<Rightarrow> skeleton" where
  "skeleton_of h a =
     Sk a (map (skeleton_of h) (filter (\<lambda>c. a < c \<and> c < length h) (fields (h ! a))))"
  by pat_completeness auto
termination
  by (relation "measure (\<lambda>(h, a). length h - a)") auto

declare skeleton_of.simps [simp del]

text \<open>
  What is to be shown of a visit that starts in the state \<open>v\<close>: it returns or raises,
  a state it returns is as \<open>visited\<close> says, and it does return when what is visited is
  resolvable.
\<close>

definition visit_result :: "visitor \<Rightarrow> visitor result \<Rightarrow> bool \<Rightarrow> bool" where
  "visit_result v r resolvable =
     (\<exists>x. r = Some x \<and> (\<forall>v'. x = Inr v' \<longrightarrow> visited v v')
          \<and> (resolvable \<longrightarrow> (\<exists>v'. x = Inr v')))"

text \<open>
  The nodes that stand for an object-shaped selection, as the specification counts them:
  an operation, a field whose resolved type is not primitive, and an inline fragment with
  a parent whose resolved type is not primitive. The root stands for no selection.
\<close>

definition object_shaped :: "store \<Rightarrow> ref \<Rightarrow> bool" where
  "object_shaped h a =
     (case node_class (h ! a) of
        ParsedNode \<Rightarrow> False
      | ParsedInlineFragmentNode \<Rightarrow>
          parent (h ! a) \<noteq> None \<and> \<not> is_primitive (parsed_type (h ! a))
      | ParsedClassNode \<Rightarrow> \<not> is_primitive (parsed_type (h ! a))
      | ParsedOperationNode \<Rightarrow> True)"

lemma rewrap_Nil: "rewrap [] t = GraphQLNonNull t"
  by (simp add: rewrap_def)

lemma rewrap_optional: "rewrap [OPTIONAL] t = t"
  by (simp add: rewrap_def)

lemma rewrap_list: "rewrap (LIST # ws) t = GraphQLNonNull (GraphQLList (rewrap ws t))"
  by (simp add: rewrap_def)

lemma rewrap_optional_list: "rewrap (OPTIONAL # LIST # ws) t = GraphQLList (rewrap ws t)"
  by (simp add: rewrap_def)

lemma unwrap_named:
  "unwrap (GraphQLNamedType k n) =
     \<lparr>wrapper_stack = [OPTIONAL], inner_gql_type = GraphQLNamedType k n,
      inner_is_primitive = (k = Scalar)\<rparr>"
  by (simp add: unwrap.simps [of "GraphQLNamedType k n"])

lemma unwrap_list:
  "unwrap (GraphQLList e) =
     \<lparr>wrapper_stack = OPTIONAL # LIST # wrapper_stack (unwrap e),
      inner_gql_type = inner_gql_type (unwrap e),
      inner_is_primitive = inner_is_primitive (unwrap e)\<rparr>"
  by (simp add: unwrap.simps [of "GraphQLList e"] Let_def)

lemma unwrap_non_null_list:
  "unwrap (GraphQLNonNull (GraphQLList e)) =
     \<lparr>wrapper_stack = LIST # wrapper_stack (unwrap e),
      inner_gql_type = inner_gql_type (unwrap e),
      inner_is_primitive = inner_is_primitive (unwrap e)\<rparr>"
  by (simp add: unwrap.simps [of "GraphQLNonNull (GraphQLList e)"] Let_def)

lemma unwrap_non_null:
  "\<not> is_list u \<Longrightarrow>
   unwrap (GraphQLNonNull u) =
     \<lparr>wrapper_stack = [], inner_gql_type = u, inner_is_primitive = is_scalar_type u\<rparr>"
  by (simp add: unwrap.simps [of "GraphQLNonNull u"])

lemmas unwrap_eqs = unwrap_named unwrap_list unwrap_non_null_list unwrap_non_null

lemma unwrap_cases:
  obtains (named) k n where "t = GraphQLNamedType k n"
  | (list) e where "t = GraphQLList e"
  | (non_null_list) e where "t = GraphQLNonNull (GraphQLList e)"
  | (non_null) u where "t = GraphQLNonNull u" and "\<not> is_list u"
proof (cases t)
  case (GraphQLNonNull u)
  then show ?thesis by (cases u) (auto intro: that)
qed (auto intro: that)

lemma unwrap_rewrap: "rewrap (wrapper_stack (unwrap t)) (inner_gql_type (unwrap t)) = t"
proof (induction t rule: unwrap.induct)
  case (1 t)
  show ?case
  proof (cases t rule: unwrap_cases)
    case (named k n)
    then show ?thesis by (simp add: unwrap_eqs rewrap_optional)
  next
    case (list e)
    with "1.IH" have "rewrap (wrapper_stack (unwrap e)) (inner_gql_type (unwrap e)) = e"
      by simp
    with list show ?thesis by (simp add: unwrap_eqs rewrap_optional_list)
  next
    case (non_null_list e)
    with "1.IH" have "rewrap (wrapper_stack (unwrap e)) (inner_gql_type (unwrap e)) = e"
      by simp
    with non_null_list show ?thesis by (simp add: unwrap_eqs rewrap_list)
  next
    case (non_null u)
    then show ?thesis by (simp add: unwrap_eqs rewrap_Nil)
  qed
qed

lemma unwrap_is_primitive:
  "inner_is_primitive (unwrap t) = is_scalar_type (inner_gql_type (unwrap t))"
proof (induction t rule: unwrap.induct)
  case (1 t)
  show ?case
  proof (cases t rule: unwrap_cases)
    case (list e)
    with "1.IH" show ?thesis by (simp add: unwrap_eqs)
  next
    case (non_null_list e)
    with "1.IH" show ?thesis by (simp add: unwrap_eqs)
  qed (simp_all add: unwrap_eqs)
qed

lemma unwrap_inner_not_list: "\<not> is_list (inner_gql_type (unwrap t))"
proof (induction t rule: unwrap.induct)
  case (1 t)
  show ?case
  proof (cases t rule: unwrap_cases)
    case (list e)
    with "1.IH" show ?thesis by (simp add: unwrap_eqs)
  next
    case (non_null_list e)
    with "1.IH" show ?thesis by (simp add: unwrap_eqs)
  qed (simp_all add: unwrap_eqs)
qed

text \<open>
  C3. For every wrapped output type, the wrapper stack of \<open>Unwrapper.unwrap\<close>, applied
  to the reported inner type from the innermost wrapper outwards, gives the original type
  back (so the stack is ordered outermost first), the inner type is no list, and
  \<open>is_primitive\<close> is exactly whether the inner type is a scalar.
\<close>

theorem C3_unwrap_roundtrip:
  "rewrap (wrapper_stack (unwrap t)) (inner_gql_type (unwrap t)) = t
   \<and> \<not> is_list (inner_gql_type (unwrap t))
   \<and> inner_is_primitive (unwrap t) = is_scalar_type (inner_gql_type (unwrap t))"
  using unwrap_rewrap [of t] unwrap_is_primitive [of t] unwrap_inner_not_list [of t]
  by simp

section \<open>Class names\<close>

lemma take_butlast2: "take (length s - 2) s = butlast (butlast s)"
  by (simp add: butlast_conv_take numeral_2_eq_2)

lemma class_name_of_eq:
  "class_name_of t =
     (if filter (\<lambda>c. c \<noteq> CHR ''_'') (str_of t) = [] then Inl IndexError
      else Inr (spec_class_name (filter (\<lambda>c. c \<noteq> CHR ''_'') (str_of t))))"
  by (simp add: class_name_of_def spec_class_name_def take_butlast2 Let_def)

lemma dedup_loop_fresh:
  "class_name \<notin> cache \<Longrightarrow> dedup_loop h cache cur class_name = Some class_name"
  by (subst dedup_loop.simps) (simp split: option.splits)

lemma to_python_type_fresh:
  assumes "\<not> is_scalar_type t" and "class_name_of t = Inr cn" and "cn \<notin> deduplication_cache v"
  shows "to_python_type m v t =
           Some (Inr (Visitor (nodes v) (parsed v) (self_parent v)
                        (insert cn (deduplication_cache v)), cn))"
  using assms by (simp add: to_python_type_def dedup_loop_fresh)

text \<open>
  C7, as stated, fails: the class name is not derived from the string form of the type
  but from the string form without its underscores. For the type \<open>App_v1\<close> the program
  gives \<open>AppV1\<close>, the stated derivation \<open>App_V1\<close>.
\<close>

theorem C7_counterexample:
  "class_name_of (GraphQLNamedType Object ''App_v1'') = Inr ''AppV1''
   \<and> class_name_of (GraphQLNamedType Object ''App_v1'')
       \<noteq> Inr (spec_class_name (str_of (GraphQLNamedType Object ''App_v1'')))"
  by (simp add: class_name_of_def spec_class_name_def)

text \<open>
  C7, amended. For a type that is no scalar, let \<open>s\<close> be its string form with every
  underscore removed. If \<open>s\<close> is not empty, the class name before deduplication is \<open>s\<close>
  without its last two characters, followed by \<open>V\<close> and the last character of \<open>s\<close>; this
  is the stated derivation from the string form itself when that has no underscore; and
  it is the name \<open>_to_python_type\<close> returns and records when the cache does not hold it.
\<close>

theorem C7_class_name:
  assumes "\<not> is_scalar_type t"
    and "s = filter (\<lambda>c. c \<noteq> CHR ''_'') (str_of t)"
    and "s \<noteq> []"
  shows "class_name_of t = Inr (spec_class_name s)
         \<and> (CHR ''_'' \<notin> set (str_of t) \<longrightarrow> class_name_of t = Inr (spec_class_name (str_of t)))
         \<and> (spec_class_name s \<notin> deduplication_cache v \<longrightarrow>
              to_python_type m v t =
                Some (Inr (Visitor (nodes v) (parsed v) (self_parent v)
                             (insert (spec_class_name s) (deduplication_cache v)),
                           spec_class_name s)))"
proof -
  have cn: "class_name_of t = Inr (spec_class_name s)"
    using assms(2,3) by (simp add: class_name_of_eq)
  have "CHR ''_'' \<notin> set (str_of t) \<Longrightarrow> s = str_of t"
    using assms(2) by (auto simp: filter_id_conv)
  with cn to_python_type_fresh [OF assms(1) cn] show ?thesis by auto
qed

theorem C7_class_name_witness:
  "class_name_of (GraphQLNamedType Object ''App_v1'') = Inr ''AppV1''
   \<and> to_python_type example_mapper init_visitor (GraphQLNamedType Object ''App_v1'') =
       Some (Inr (Visitor (nodes init_visitor) 0 (Some 0) {''AppV1''}, ''AppV1''))"
  using C7_class_name [of "GraphQLNamedType Object ''App_v1''" "''Appv1''"
      init_visitor example_mapper]
  by (simp add: spec_class_name_def init_visitor_def)

section \<open>Type resolution\<close>

lemma bottom_type_further:
  "is_non_null (strip_list (strip_non_null t)) \<or> is_list (strip_list (strip_non_null t)) \<Longrightarrow>
   bottom_type t = bottom_type (strip_list (strip_non_null t))"
  by (subst bottom_type.simps) (simp add: Let_def)

lemma bottom_type_done:
  "\<not> (is_non_null (strip_list (strip_non_null t)) \<or> is_list (strip_list (strip_non_null t))) \<Longrightarrow>
   bottom_type t = strip_list (strip_non_null t)"
  by (subst bottom_type.simps) (simp add: Let_def)

lemma type_expr_further:
  "is_non_null (strip_list (strip_non_null t)) \<or> is_list (strip_list (strip_non_null t)) \<Longrightarrow>
   type_expr t name =
     rewrap_type (\<not> is_non_null t) (is_list (strip_non_null t))
       (type_expr (strip_list (strip_non_null t)) name)"
  by (subst type_expr.simps) (auto simp: Let_def rewrap_type_def)

lemma type_expr_done:
  "\<not> (is_non_null (strip_list (strip_non_null t)) \<or> is_list (strip_list (strip_non_null t))) \<Longrightarrow>
   type_expr t name = rewrap_type (\<not> is_non_null t) (is_list (strip_non_null t)) name"
  by (subst type_expr.simps) (auto simp: Let_def rewrap_type_def)

lemma parse_type_closed_form:
  "parse_type m v t =
     bind_result (to_python_type m v (bottom_type t))
       (\<lambda>(v', name). Some (Inr (v',
          \<lparr>unwrapped_python_type = name,
           wrapped_python_type = type_expr t name,
           is_primitive = is_scalar_type (bottom_type t)\<rparr>)))"
proof (induction m v t rule: parse_type.induct)
  case (1 m v t)
  let ?rest = "strip_list (strip_non_null t)"
  show ?case
  proof (cases "is_non_null ?rest \<or> is_list ?rest")
    case True
    have ih: "parse_type m v ?rest =
       bind_result (to_python_type m v (bottom_type ?rest))
       (\<lambda>(v', name). Some (Inr (v',
          \<lparr>unwrapped_python_type = name,
           wrapped_python_type = type_expr ?rest name,
           is_primitive = is_scalar_type (bottom_type ?rest)\<rparr>)))"
      using "1.IH" True by simp
    show ?thesis
      using True
      by (subst parse_type.simps)
         (auto simp: Let_def ih bottom_type_further type_expr_further bind_result_def
               split: option.splits sum.splits)
  next
    case False
    then show ?thesis
      by (subst parse_type.simps)
         (auto simp: Let_def bottom_type_done type_expr_done bind_result_def
               split: option.splits sum.splits)
  qed
qed

text \<open>
  C6. \<open>_parse_type\<close> resolves the innermost type with \<open>_to_python_type\<close>, in the state it
  was called in, and returns the resolved name wrapped level by level as \<open>type_expr\<close>
  says: \<open>Optional[list[...]]\<close> for a level that is optional and a list (the case tested
  first), \<open>Optional[...]\<close> for one that is only optional, \<open>list[...]\<close> for one that is
  only a list, the bare expression otherwise. It raises, or does not return, exactly when
  the resolution of the innermost type does.
\<close>

theorem C6_parse_type_rewrap:
  "parse_type m v t =
     bind_result (to_python_type m v (bottom_type t))
       (\<lambda>(v', name). Some (Inr (v',
          \<lparr>unwrapped_python_type = name,
           wrapped_python_type = type_expr t name,
           is_primitive = is_scalar_type (bottom_type t)\<rparr>)))"
  by (rule parse_type_closed_form)

theorem C6_parse_type_rewrap_witness:
  "parse_type example_mapper init_visitor
     (GraphQLList (GraphQLNonNull (GraphQLList (GraphQLNonNull
        (GraphQLNamedType Object ''App_v1''))))) =
   Some (Inr (Visitor (nodes init_visitor) 0 (Some 0) {''AppV1''},
     \<lparr>unwrapped_python_type = ''AppV1'',
      wrapped_python_type = ''Optional[list[list[AppV1]]]'',
      is_primitive = False\<rparr>))
   \<and> wrapped_python_type (snd (projr (the (parse_type example_mapper init_visitor
        (GraphQLNamedType Scalar ''String''))))) = ''Optional[str]''
   \<and> wrapped_python_type (snd (projr (the (parse_type example_mapper init_visitor
        (GraphQLNonNull (GraphQLList (GraphQLNamedType Scalar ''Int''))))))) = ''list[int]''
   \<and> wrapped_python_type (snd (projr (the (parse_type example_mapper init_visitor
        (GraphQLNonNull (GraphQLNamedType Scalar ''Int'')))))) = ''int''"
  by (simp only: C6_parse_type_rewrap) code_simp

section \<open>The errors of the parser\<close>

text \<open>
  C5. When the document has a single operation and it has no name,
  \<open>QueryParser.parse\<close> raises \<open>AnonymousQueryError\<close>, whatever validation would say;
  otherwise, when validation reports errors, it raises \<open>InvalidQueryError\<close> with the
  whole list. In both cases the result is the error alone: no tree is returned.
\<close>

theorem C5_parse_errors:
  assumes "graphql_parse lib query = Inr document_ast"
  shows "(get_operation_ast document_ast = Some operation \<and> operation_name operation = None
            \<longrightarrow> QueryParser_parse lib m query schema = Some (Inl AnonymousQueryError))
       \<and> (\<not> (\<exists>operation. get_operation_ast document_ast = Some operation
                  \<and> operation_name operation = None)
            \<and> graphql_validate lib schema document_ast \<noteq> []
            \<longrightarrow> QueryParser_parse lib m query schema =
                  Some (Inl (InvalidQueryError (graphql_validate lib schema document_ast))))
       \<and> ((\<exists>operation. get_operation_ast document_ast = Some operation
                  \<and> operation_name operation = None)
            \<or> graphql_validate lib schema document_ast \<noteq> []
            \<longrightarrow> (\<forall>ir. QueryParser_parse lib m query schema \<noteq> Some (Inr ir)))"
  using assms by (auto simp: QueryParser_parse_def Let_def)

theorem C5_parse_errors_witness:
  "QueryParser_parse example_graphql example_mapper ''{ field }'' () =
     Some (Inl AnonymousQueryError)
   \<and> QueryParser_parse example_graphql example_mapper ''query Q { missing }'' () =
       Some (Inl (InvalidQueryError [''Cannot query field missing on type Query.'']))"
  using C5_parse_errors [of example_graphql "''{ field }''" doc_anonymous
      "OperationDefinitionNode None
        [FieldNode ''field'' None (Some (GraphQLNamedType Scalar ''String'')) []]"
      example_mapper "()"]
    C5_parse_errors [of example_graphql "''query Q { missing }''" doc_missing _
      example_mapper "()"]
  by (simp add: example_graphql_def get_operation_ast_def doc_anonymous_def doc_missing_def)

section \<open>What the emitter changes in the store\<close>

lemma same_but_order_refl [simp]: "same_but_order n n"
  by (simp add: same_but_order_def)

lemma same_but_order_trans:
  "same_but_order a b \<Longrightarrow> same_but_order b c \<Longrightarrow> same_but_order a c"
  by (auto simp: same_but_order_def)

lemma reordered_refl [simp]: "reordered h h"
  by (simp add: reordered_def list_all2_refl)

lemma reordered_trans: "reordered a b \<Longrightarrow> reordered b c \<Longrightarrow> reordered a c"
  unfolding reordered_def
  by (auto elim: list_all2_trans [rotated] intro: same_but_order_trans)

lemma reordered_nth: "reordered h h' \<Longrightarrow> a < length h \<Longrightarrow> same_but_order (h ! a) (h' ! a)"
  by (simp add: reordered_def list_all2_nthD)

lemma mset_sort_reverse [simp]: "mset (sort_reverse key xs) = mset xs"
  by (simp add: sort_reverse_def)

lemma set_sort_reverse [simp]: "set (sort_reverse key xs) = set xs"
  by (simp add: sort_reverse_def)

lemma length_sort_reverse [simp]: "length (sort_reverse key xs) = length xs"
  by (simp add: sort_reverse_def)

lemma set_fields_sel [simp]:
  "node_class (set_fields fs n) = node_class n"
  "parent (set_fields fs n) = parent n"
  "fields (set_fields fs n) = fs"
  "parsed_type (set_fields fs n) = parsed_type n"
  "gql_key (set_fields fs n) = gql_key n"
  "py_key (set_fields fs n) = py_key n"
  by (simp_all add: set_fields_def)

lemma fst_field_type: "fst (field_type h self) = sort_fields h self"
  by (simp add: field_type_def sort_fields_def Let_def)

lemma reordered_update:
  assumes "same_but_order (h ! a) n"
  shows "reordered h (h[a := n])"
proof -
  have "list_all2 same_but_order h (h[a := n])"
    unfolding list_all2_conv_all_nth
  proof (intro conjI allI impI)
    fix i assume "i < length h"
    then show "same_but_order (h ! i) (h[a := n] ! i)"
      using assms by (cases "a = i") simp_all
  qed simp
  then show ?thesis by (simp add: reordered_def)
qed

lemma reordered_sort_fields:
  "node_class (h ! self) = ParsedClassNode \<Longrightarrow> reordered h (sort_fields h self)"
  unfolding sort_fields_def
  by (rule reordered_update) (simp add: same_but_order_def)

lemma reordered_field_lines: "reordered h (fst (field_lines h fs))"
proof (induction fs arbitrary: h)
  case Nil
  then show ?case by simp
next
  case (Cons f fs)
  show ?case
  proof (cases "node_class (h ! f) = ParsedClassNode")
    case True
    have 1: "reordered h (sort_fields h f)" using True by (rule reordered_sort_fields)
    have 2: "reordered (sort_fields h f) (fst (field_lines (sort_fields h f) fs))"
      by (rule Cons.IH)
    have "fst (field_lines h (f # fs)) = fst (field_lines (sort_fields h f) fs)"
      using True fst_field_type [of h f]
      by (simp add: split_beta Let_def)
    with reordered_trans [OF 1 2] show ?thesis by simp
  next
    case False
    with Cons.IH show ?thesis by simp
  qed
qed

lemma reordered_class_code: "reordered h (fst (class_code h self header))"
  using reordered_field_lines [of h "fields (h ! self)"]
  by (simp add: class_code_def split_beta)

lemma reordered_class_code_string: "reordered h (fst (class_code_string h self))"
  by (simp add: class_code_string_def reordered_class_code
      split: node_class.splits option.splits)

lemma reordered_traverse_loop:
  assumes "\<And>h c h' text. rec h c = Some (h', text) \<Longrightarrow> reordered h h'"
    and "traverse_loop rec want h result cs = Some (h', text)"
  shows "reordered h h'"
  using assms(2)
proof (induction cs arbitrary: h result)
  case Nil
  then show ?case by simp
next
  case (Cons c cs)
  show ?case
  proof (cases "(node_class (h ! c) = ParsedInlineFragmentNode) = want")
    case True
    with Cons.prems obtain h1 t1 where r: "rec h c = Some (h1, t1)"
      and l: "traverse_loop rec want h1 (result @ t1) cs = Some (h', text)"
      by (auto split: option.splits)
    from assms(1) [OF r] Cons.IH [OF l] show ?thesis by (rule reordered_trans)
  next
    case False
    with Cons.prems Cons.IH show ?thesis by simp
  qed
qed

lemma reordered_traverse: "traverse fuel h n = Some (h', out) \<Longrightarrow> reordered h h'"
proof (induction fuel arbitrary: h n h' out)
  case 0
  then show ?case by simp
next
  case (Suc fuel)
  from Suc.prems obtain h1 r1 where
    l1: "traverse_loop (traverse fuel) False h '''' (fields (h ! n)) = Some (h1, r1)"
    and l2: "traverse_loop (traverse fuel) True (fst (class_code_string h1 n))
               (r1 @ snd (class_code_string h1 n))
               (fields (fst (class_code_string h1 n) ! n)) = Some (h', out)"
    by (auto split: option.splits prod.splits)
  have a: "reordered h h1"
    using Suc.IH l1 by (rule reordered_traverse_loop)
  have b: "reordered h1 (fst (class_code_string h1 n))"
    by (rule reordered_class_code_string)
  have c: "reordered (fst (class_code_string h1 n)) h'"
    using Suc.IH l2 by (rule reordered_traverse_loop)
  from a b c show ?case by (blast intro: reordered_trans)
qed

section \<open>The field type of a class node\<close>

lemma fold_collect:
  "fold (\<lambda>x acc. if P x then acc @ [g x] else acc) xs acc = acc @ map g (filter P xs)"
  by (induction xs arbitrary: acc) simp_all

lemma sorted_sort_reverse:
  "sorted_wrt (\<lambda>a b. key a \<ge> key b) (sort_reverse key xs)"
proof -
  have "sorted (map (\<lambda>a. - int (key a)) (sort_reverse key xs))"
    by (simp add: sort_reverse_def)
  then show ?thesis by (simp add: sorted_map)
qed

lemma stable_sort_reverse:
  "filter (\<lambda>a. key a = k) (sort_reverse key xs) = filter (\<lambda>a. key a = k) xs"
proof -
  have "filter (\<lambda>a. - int (key a) = - int k) (sort_reverse key xs)
        = filter (\<lambda>a. - int (key a) = - int k) xs"
    unfolding sort_reverse_def by (rule sort_key_stable)
  then show ?thesis by simp
qed

lemma nth_sort_fields:
  "sort_fields h self ! a =
     (if a = self \<and> self < length h
      then set_fields (sort_reverse (\<lambda>a. length (fields (h ! a))) (fields (h ! self))) (h ! self)
      else h ! a)"
  by (cases "self < length h") (auto simp: sort_fields_def list_update_beyond)

lemma fields_sort_fields_self:
  "self < length h \<Longrightarrow>
   fields (sort_fields h self ! self) =
     sort_reverse (\<lambda>a. length (fields (h ! a))) (fields (h ! self))"
  by (simp add: nth_sort_fields)

lemma sort_fields_data [simp]:
  "node_class (sort_fields h self ! a) = node_class (h ! a)"
  "parsed_type (sort_fields h self ! a) = parsed_type (h ! a)"
  "parent (sort_fields h self ! a) = parent (h ! a)"
  "gql_key (sort_fields h self ! a) = gql_key (h ! a)"
  "py_key (sort_fields h self ! a) = py_key (h ! a)"
  by (simp_all add: nth_sort_fields)

lemma snd_field_type:
  assumes "self < length h"
  shows "snd (field_type h self) =
     (let children = sort_reverse (\<lambda>a. length (fields (h ! a))) (fields (h ! self));
          unions = map (\<lambda>f. unwrapped_python_type (parsed_type (h ! f)))
                     (filter (\<lambda>f. node_class (h ! f) = ParsedInlineFragmentNode) children);
          pt = parsed_type (h ! self)
      in if unions = [] then wrapped_python_type pt
         else replace (wrapped_python_type pt) (unwrapped_python_type pt)
                (''Union['' @ join '', '' (unions @ [unwrapped_python_type pt]) @ '']''))"
proof -
  have "field_type h self =
     (let h' = sort_fields h self;
          unions = fold (\<lambda>field unions.
                      if node_class (h' ! field) = ParsedInlineFragmentNode
                      then unions @ [unwrapped_python_type (parsed_type (h' ! field))]
                      else unions) (fields (h' ! self)) [];
          pt = parsed_type (h' ! self)
      in if length unions > 0
         then (h', replace (wrapped_python_type pt) (unwrapped_python_type pt)
                     (''Union['' @ join '', '' (unions @ [unwrapped_python_type pt]) @ '']''))
         else (h', wrapped_python_type pt))"
    by (simp add: field_type_def sort_fields_def Let_def)
  then show ?thesis
    using assms by (simp add: Let_def fold_collect fields_sort_fields_self)
qed

text \<open>
  C2. For a node of the store that is not among its own fields: the fields are sorted
  into descending order of their numbers of fields (a stable sort, which is also what
  the store holds afterwards); the class names of the inline fragments among them are
  collected in that order; if there is one, the text is the wrapped name with
  \<open>Union[...]\<close> of these names and, last, the node's own unwrapped name in place of the
  unwrapped name; if there is none, the text is the wrapped name.
\<close>

theorem C2_field_type:
  assumes "self < length h" and "self \<notin> set (fields (h ! self))"
    and "children = sort_reverse (\<lambda>a. length (fields (h ! a))) (fields (h ! self))"
    and "unions = map (\<lambda>f. unwrapped_python_type (parsed_type (h ! f)))
                    (filter (\<lambda>f. node_class (h ! f) = ParsedInlineFragmentNode) children)"
    and "pt = parsed_type (h ! self)"
  shows "(unions \<noteq> [] \<longrightarrow>
            snd (field_type h self) =
              replace (wrapped_python_type pt) (unwrapped_python_type pt)
                (''Union['' @ join '', '' (unions @ [unwrapped_python_type pt]) @ '']''))
       \<and> (unions = [] \<longrightarrow> snd (field_type h self) = wrapped_python_type pt)
       \<and> (unions = [] \<longleftrightarrow>
            (\<forall>f \<in> set (fields (h ! self)). node_class (h ! f) \<noteq> ParsedInlineFragmentNode))
       \<and> fields (fst (field_type h self) ! self) = children
       \<and> mset children = mset (fields (h ! self))
       \<and> sorted_wrt (\<lambda>a b. length (fields (h ! a)) \<ge> length (fields (h ! b))) children
       \<and> (\<forall>k. filter (\<lambda>a. length (fields (h ! a)) = k) children
               = filter (\<lambda>a. length (fields (h ! a)) = k) (fields (h ! self)))"
proof -
  have "unions = [] \<longleftrightarrow>
          (\<forall>f \<in> set (fields (h ! self)). node_class (h ! f) \<noteq> ParsedInlineFragmentNode)"
    using assms(3,4) by (auto simp: filter_empty_conv)
  moreover have "fields (fst (field_type h self) ! self) = children"
    using assms(1,3) by (simp add: fst_field_type fields_sort_fields_self)
  moreover have "sorted_wrt (\<lambda>a b. length (fields (h ! a)) \<ge> length (fields (h ! b))) children"
    unfolding assms(3) by (rule sorted_sort_reverse)
  moreover have "\<And>k. filter (\<lambda>a. length (fields (h ! a)) = k) children
               = filter (\<lambda>a. length (fields (h ! a)) = k) (fields (h ! self))"
    unfolding assms(3) by (rule stable_sort_reverse)
  ultimately show ?thesis
    using snd_field_type [OF assms(1)] assms(3-5) by (simp add: Let_def)
qed

theorem C2_field_type_witness:
  "snd (field_type store_pet 2) = ''Optional[Union[CatV1, DogV1, PetV1]]''
   \<and> fields (fst (field_type store_pet 2) ! 2) = [6, 4, 3]
   \<and> snd (field_type store_pet 3) = ''Optional[str]''"
proof -
  have l2: "(2::nat) < length store_pet" and l3: "(3::nat) < length store_pet"
    and n2: "(2::nat) \<notin> set (fields (store_pet ! 2))"
    and n3: "(3::nat) \<notin> set (fields (store_pet ! 3))"
    by (simp_all add: store_pet_def)
  have c2: "[6, 4, 3] = sort_reverse (\<lambda>a. length (fields (store_pet ! a)))
                          (fields (store_pet ! 2))"
    by code_simp
  have u2: "[''CatV1'', ''DogV1''] =
      map (\<lambda>f. unwrapped_python_type (parsed_type (store_pet ! f)))
        (filter (\<lambda>f. node_class (store_pet ! f) = ParsedInlineFragmentNode) [6, 4, 3])"
    by code_simp
  have u3: "[] = map (\<lambda>f. unwrapped_python_type (parsed_type (store_pet ! f)))
        (filter (\<lambda>f. node_class (store_pet ! f) = ParsedInlineFragmentNode)
           (sort_reverse (\<lambda>a. length (fields (store_pet ! a))) (fields (store_pet ! 3))))"
    by code_simp
  have ne: "[''CatV1'', ''DogV1''] \<noteq> []" by simp
  have r: "replace (wrapped_python_type (parsed_type (store_pet ! 2)))
             (unwrapped_python_type (parsed_type (store_pet ! 2)))
             (''Union['' @ join '', ''
                ([''CatV1'', ''DogV1''] @ [unwrapped_python_type (parsed_type (store_pet ! 2))])
              @ '']'') = ''Optional[Union[CatV1, DogV1, PetV1]]''"
    and w: "wrapped_python_type (parsed_type (store_pet ! 3)) = ''Optional[str]''"
    by code_simp+
  note t2 = C2_field_type [OF l2 n2 c2 u2 refl]
  note t3 = C2_field_type [OF l3 n3 refl u3 refl]
  have "snd (field_type store_pet 2) = ''Optional[Union[CatV1, DogV1, PetV1]]''"
    using t2 [THEN conjunct1, THEN mp, OF ne] r by (rule trans)
  moreover have "fields (fst (field_type store_pet 2) ! 2) = [6, 4, 3]"
    using t2 by blast
  moreover have "snd (field_type store_pet 3) = ''Optional[str]''"
    using t3 [THEN conjunct2, THEN conjunct1, THEN mp, OF refl] w by (rule trans)
  ultimately show ?thesis by blast
qed

section \<open>The tree after code generation\<close>

lemma parse_pet:
  "QueryParser_parse example_graphql example_mapper
     ''query Q { pet { name ... on Dog { bark } ... on Cat { meow lives } } }'' () =
   Some (Inr (store_pet, 0))"
  by code_simp

text \<open>
  C9, as stated, fails: \<open>field_type\<close> sorts the fields of the node in place. In the
  tree of the example with the inline fragments, the fields of the node for \<open>pet\<close> are
  its three children in the order of the query when \<open>QueryParser.parse\<close> returns, and
  in another order after the traversal of the emitter.
\<close>

theorem C9_counterexample:
  "QueryParser_parse example_graphql example_mapper
     ''query Q { pet { name ... on Dog { bark } ... on Cat { meow lives } } }'' () =
     Some (Inr (store_pet, 0))
   \<and> fields (store_pet ! 2) = [3, 4, 6]
   \<and> map_option (\<lambda>(h', out). fields (h' ! 2)) (traverse 5 store_pet 0) = Some [6, 4, 3]"
  by code_simp

text \<open>
  C9, amended. The traversal of the emitter leaves the class, the parent, the parsed
  type and the keys of every node as they were, and the fields of every node hold the
  same children as before; their order is unchanged too, unless the node is a
  \<open>ParsedClassNode\<close>.
\<close>

theorem C9_only_order_changes:
  assumes "traverse fuel h n = Some (h', out)"
  shows "length h' = length h
     \<and> (\<forall>a<length h.
          node_class (h' ! a) = node_class (h ! a) \<and> parent (h' ! a) = parent (h ! a)
          \<and> parsed_type (h' ! a) = parsed_type (h ! a)
          \<and> gql_key (h' ! a) = gql_key (h ! a) \<and> py_key (h' ! a) = py_key (h ! a)
          \<and> mset (fields (h' ! a)) = mset (fields (h ! a))
          \<and> (node_class (h ! a) \<noteq> ParsedClassNode \<longrightarrow> fields (h' ! a) = fields (h ! a)))"
proof -
  have r: "reordered h h'" using assms by (rule reordered_traverse)
  then have "length h' = length h" by (simp add: reordered_def)
  moreover have "\<And>a. a < length h \<Longrightarrow> same_but_order (h ! a) (h' ! a)"
    using r by (rule reordered_nth)
  ultimately show ?thesis by (auto simp: same_but_order_def)
qed

theorem C9_only_order_changes_witness:
  "traverse 5 store_pet 0 \<noteq> None
   \<and> length (fst (the (traverse 5 store_pet 0))) = length store_pet
   \<and> parsed_type (fst (the (traverse 5 store_pet 0)) ! 2) = parsed_type (store_pet ! 2)
   \<and> mset (fields (fst (the (traverse 5 store_pet 0)) ! 2)) = mset (fields (store_pet ! 2))
   \<and> fields (fst (the (traverse 5 store_pet 0)) ! 4) = fields (store_pet ! 4)"
proof -
  have ret: "traverse 5 store_pet 0 \<noteq> None" by code_simp
  then obtain h' out where r: "traverse 5 store_pet 0 = Some (h', out)" by auto
  have 2: "(2::nat) < length store_pet" and 4: "(4::nat) < length store_pet"
    and c: "node_class (store_pet ! 4) \<noteq> ParsedClassNode"
    by (simp_all add: store_pet_def)
  from C9_only_order_changes [OF r] 2 4 c ret show ?thesis by (simp add: r)
qed

section \<open>Deduplication of class names\<close>

text \<open>
  C4. The loop of \<open>_to_python_type\<close> stops at the operation node, whether or not the
  name it has reached is in the cache: in the tree of a query that selects one object type
  three times under the operation, the second and the third node get the same class
  name.
\<close>

theorem C4_same_class_name_twice:
  "case QueryParser_parse example_graphql example_mapper
          ''query Q { a { x } b: a { x } c: a { x } }'' () of
     Some (Inr (h, ast)) \<Rightarrow>
       node_class (h ! 4) = ParsedClassNode \<and> node_class (h ! 6) = ParsedClassNode
       \<and> \<not> is_primitive (parsed_type (h ! 4)) \<and> \<not> is_primitive (parsed_type (h ! 6))
       \<and> unwrapped_python_type (parsed_type (h ! 4)) = ''Q_AppV1''
       \<and> unwrapped_python_type (parsed_type (h ! 6)) = ''Q_AppV1''
   | _ \<Rightarrow> False"
  by code_simp

section \<open>The emitter on a tree\<close>

subsection \<open>The text of a declaration does not depend on earlier sorting\<close>

lemma nth_beyond_eq:
  "length xs = length ys \<Longrightarrow> length xs \<le> n \<Longrightarrow> xs ! n = ys ! n"
proof (induction xs ys arbitrary: n rule: list_induct2)
  case Nil
  then show ?case by simp
next
  case (Cons x xs y ys)
  then show ?case by (cases n) simp_all
qed

lemma reordered_same: "reordered h g \<Longrightarrow> same_but_order (h ! a) (g ! a)"
proof (cases "a < length h")
  case True
  assume "reordered h g"
  then show ?thesis using True by (rule reordered_nth)
next
  case False
  assume "reordered h g"
  then have "length h = length g" by (simp add: reordered_def)
  with False have "h ! a = g ! a" by (intro nth_beyond_eq) simp_all
  then show ?thesis by simp
qed

lemma reordered_length: "reordered h g \<Longrightarrow> length g = length h"
  by (simp add: reordered_def)

lemma reordered_data:
  assumes "reordered h g"
  shows "node_class (g ! a) = node_class (h ! a)"
    and "parsed_type (g ! a) = parsed_type (h ! a)"
    and "parent (g ! a) = parent (h ! a)"
    and "gql_key (g ! a) = gql_key (h ! a)"
    and "py_key (g ! a) = py_key (h ! a)"
    and "length (fields (g ! a)) = length (fields (h ! a))"
proof -
  have s: "same_but_order (h ! a) (g ! a)" using assms by (rule reordered_same)
  then show "node_class (g ! a) = node_class (h ! a)"
    and "parsed_type (g ! a) = parsed_type (h ! a)"
    and "parent (g ! a) = parent (h ! a)"
    and "gql_key (g ! a) = gql_key (h ! a)"
    and "py_key (g ! a) = py_key (h ! a)"
    by (simp_all add: same_but_order_def)
  from s have "mset (fields (g ! a)) = mset (fields (h ! a))"
    by (simp add: same_but_order_def)
  then show "length (fields (g ! a)) = length (fields (h ! a))"
    by (rule mset_eq_length)
qed

lemma field_type_text_cong:
  assumes r: "reordered h g" and f: "fields (g ! f) = fields (h ! f)" and l: "f < length h"
  shows "snd (field_type g f) = snd (field_type h f)"
proof -
  have lg: "f < length g" using r l by (simp add: reordered_length)
  have k: "(\<lambda>a. length (fields (g ! a))) = (\<lambda>a. length (fields (h ! a)))"
    using reordered_data(6) [OF r] by auto
  show ?thesis
    by (simp add: snd_field_type [OF l] snd_field_type [OF lg] k f
        reordered_data(1,2) [OF r])
qed

lemma field_lines_Cons_class:
  "node_class (h ! f) = ParsedClassNode \<Longrightarrow>
   field_lines h (f # fs) =
     (fst (field_lines (sort_fields h f) fs),
      field_line h f # snd (field_lines (sort_fields h f) fs))"
  using fst_field_type [of h f]
  by (simp add: split_beta Let_def field_line_def)

lemma field_lines_Cons_other:
  "node_class (h ! f) \<noteq> ParsedClassNode \<Longrightarrow> field_lines h (f # fs) = field_lines h fs"
  by simp

declare field_lines.simps(2) [simp del]

lemma field_line_cong:
  assumes "reordered h g" and "fields (g ! f) = fields (h ! f)" and "f < length h"
  shows "field_line g f = field_line h f"
  using field_type_text_cong [OF assms] reordered_data [OF assms(1)]
  by (simp add: field_line_def)

lemma field_lines_text:
  assumes "distinct fs" and "\<forall>f\<in>set fs. f < length h"
  shows "snd (field_lines h fs) =
           map (field_line h) (filter (\<lambda>f. node_class (h ! f) = ParsedClassNode) fs)"
  using assms
proof (induction fs arbitrary: h)
  case Nil
  then show ?case by simp
next
  case (Cons f fs)
  show ?case
  proof (cases "node_class (h ! f) = ParsedClassNode")
    case True
    let ?h1 = "sort_fields h f"
    have r: "reordered h ?h1" using True by (rule reordered_sort_fields)
    have len: "\<forall>f\<in>set fs. f < length ?h1"
      using Cons.prems(2) reordered_length [OF r] by simp
    have ih: "snd (field_lines ?h1 fs) =
        map (field_line ?h1) (filter (\<lambda>f. node_class (?h1 ! f) = ParsedClassNode) fs)"
      using Cons.prems(1) len by (intro Cons.IH) simp_all
    have "map (field_line ?h1) (filter (\<lambda>f. node_class (h ! f) = ParsedClassNode) fs)
        = map (field_line h) (filter (\<lambda>f. node_class (h ! f) = ParsedClassNode) fs)"
    proof (rule map_cong [OF refl])
      fix x assume "x \<in> set (filter (\<lambda>f. node_class (h ! f) = ParsedClassNode) fs)"
      then have x: "x \<in> set fs" by simp
      with Cons.prems(1) have "x \<noteq> f" by auto
      then have "fields (?h1 ! x) = fields (h ! x)" by (simp add: nth_sort_fields)
      moreover have "x < length h" using x Cons.prems(2) by simp
      ultimately show "field_line ?h1 x = field_line h x"
        using r by (intro field_line_cong)
    qed
    with ih True show ?thesis by (simp add: field_lines_Cons_class)
  next
    case False
    with Cons show ?thesis by (simp add: field_lines_Cons_other)
  qed
qed

lemma field_lines_frame:
  "a \<notin> set (filter (\<lambda>f. node_class (h ! f) = ParsedClassNode) fs) \<Longrightarrow>
   fst (field_lines h fs) ! a = h ! a"
proof (induction fs arbitrary: h)
  case Nil
  then show ?case by simp
next
  case (Cons f fs)
  show ?case
  proof (cases "node_class (h ! f) = ParsedClassNode")
    case True
    with Cons.prems have "a \<noteq> f"
      and "a \<notin> set (filter (\<lambda>f. node_class (h ! f) = ParsedClassNode) fs)"
      by auto
    then have "fst (field_lines (sort_fields h f) fs) ! a = sort_fields h f ! a"
      by (intro Cons.IH) simp
    with \<open>a \<noteq> f\<close> True show ?thesis
      by (simp add: field_lines_Cons_class nth_sort_fields)
  next
    case False
    with Cons show ?thesis by (simp add: field_lines_Cons_other)
  qed
qed

lemma class_code_text:
  assumes "distinct (fields (h ! a))" and "\<forall>f\<in>set (fields (h ! a)). f < length h"
  shows "snd (class_code h a header) =
     join ''\<newline>'' ([''\<newline>\<newline>'', header]
       @ map (field_line h) (filter (\<lambda>f. node_class (h ! f) = ParsedClassNode) (fields (h ! a)))
       @ config_lines)"
  using field_lines_text [OF assms] by (simp add: class_code_def split_beta)

lemma class_code_cong:
  assumes r: "reordered h g" and e: "g ! a = h ! a"
    and c: "\<forall>f\<in>set (fields (h ! a)). g ! f = h ! f \<and> f < length h"
    and d: "distinct (fields (h ! a))"
  shows "snd (class_code g a header) = snd (class_code h a header)"
proof -
  have fg: "fields (g ! a) = fields (h ! a)" using e by simp
  have lg: "\<forall>f\<in>set (fields (g ! a)). f < length g"
    using c fg reordered_length [OF r] by simp
  have dg: "distinct (fields (g ! a))" using d fg by simp
  have "map (field_line g) (filter (\<lambda>f. node_class (h ! f) = ParsedClassNode) (fields (h ! a)))
      = map (field_line h) (filter (\<lambda>f. node_class (h ! f) = ParsedClassNode) (fields (h ! a)))"
  proof (rule map_cong [OF refl])
    fix x assume "x \<in> set (filter (\<lambda>f. node_class (h ! f) = ParsedClassNode) (fields (h ! a)))"
    then have "x \<in> set (fields (h ! a))" by simp
    with c have "fields (g ! x) = fields (h ! x)" and "x < length h" by simp_all
    with r show "field_line g x = field_line h x" by (intro field_line_cong)
  qed
  then show ?thesis
    using c d
    by (simp add: class_code_text [OF dg lg] class_code_text fg reordered_data(1) [OF r]
        del: map_eq_conv)
qed

lemma class_declaration_cong:
  assumes r: "reordered h g" and e: "g ! a = h ! a"
    and c: "\<forall>f\<in>set (fields (h ! a)). g ! f = h ! f \<and> f < length h"
    and d: "distinct (fields (h ! a))"
  shows "class_declaration g a = class_declaration h a"
  using class_code_cong [OF assms] e reordered_data(2) [OF r]
  by (simp add: class_declaration_def class_code_string_def
      split: node_class.splits option.splits)

lemma class_code_string_frame:
  assumes "x \<notin> set (filter (\<lambda>f. node_class (h ! f) = ParsedClassNode) (fields (h ! a)))"
  shows "fst (class_code_string h a) ! x = h ! x"
  using field_lines_frame [OF assms]
  by (simp add: class_code_string_def class_code_def split_beta
      split: node_class.splits option.splits)

subsection \<open>Skeletons\<close>

lemma root_in_addrs [simp]: "root t \<in> set (addrs t)"
  by (cases t) simp

lemma shape_cong:
  "shape h t \<Longrightarrow> length g = length h \<Longrightarrow> (\<forall>x\<in>set (addrs t). g ! x = h ! x) \<Longrightarrow> shape g t"
proof (induction t)
  case (Sk a ts)
  have "list_all (shape g) ts"
    unfolding list_all_iff
  proof
    fix u assume u: "u \<in> set ts"
    with Sk.prems have "shape h u" and "\<forall>x\<in>set (addrs u). g ! x = h ! x"
      by (auto simp: list_all_iff)
    with Sk.IH [OF u] Sk.prems(2) show "shape g u" by simp
  qed
  with Sk.prems show ?case by simp
qed

lemma distinct_roots:
  "distinct (concat (map addrs ts)) \<Longrightarrow> distinct (map root ts)"
proof (induction ts)
  case Nil
  then show ?case by simp
next
  case (Cons u us)
  have "root u \<notin> root ` set us"
  proof
    assume "root u \<in> root ` set us"
    then obtain w where w: "w \<in> set us" and "root w = root u" by auto
    then have "root u \<in> set (addrs w)" using root_in_addrs [of w] by simp
    with w have "root u \<in> set (concat (map addrs us))" by auto
    moreover have "root u \<in> set (addrs u)" by simp
    moreover have "set (addrs u) \<inter> set (concat (map addrs us)) = {}"
      using Cons.prems by simp
    ultimately show False by blast
  qed
  with Cons show ?case by simp
qed

lemma shape_node:
  assumes "shape h t" and "distinct (addrs t)" and "x \<in> set (addrs t)"
  shows "x < length h \<and> distinct (fields (h ! x)) \<and> set (fields (h ! x)) \<subseteq> set (addrs t)"
  using assms
proof (induction t)
  case (Sk a ts)
  show ?case
  proof (cases "x = a")
    case True
    have "set (map root ts) \<subseteq> set (concat (map addrs ts))"
      using root_in_addrs by auto
    with Sk.prems True show ?thesis by (auto simp: distinct_roots)
  next
    case False
    with Sk.prems obtain u where u: "u \<in> set ts" and x: "x \<in> set (addrs u)" by auto
    from Sk.prems(2) u have "distinct (addrs u)"
      by (auto simp: distinct_concat_iff)
    moreover from Sk.prems(1) u have "shape h u" by (simp add: list_all_iff)
    ultimately have "x < length h \<and> distinct (fields (h ! x))
        \<and> set (fields (h ! x)) \<subseteq> set (addrs u)"
      using Sk.IH [OF u] x by simp
    with u show ?thesis by auto
  qed
qed

lemma emit_order_cong:
  "(\<And>x. node_class (g ! x) = node_class (h ! x)) \<Longrightarrow> emit_order g t = emit_order h t"
proof (induction t)
  case (Sk a ts)
  have m: "map (emit_order g) us = map (emit_order h) us" if "set us \<subseteq> set ts" for us
    using that Sk by (intro map_cong) auto
  show ?case using Sk.prems by (simp add: m del: map_eq_conv)
qed

lemma mset_emit_order: "mset (emit_order h t) = mset (addrs t)"
proof (induction t)
  case (Sk a ts)
  let ?P = "\<lambda>t. node_class (h ! root t) \<noteq> ParsedInlineFragmentNode"
  have e: "mset (concat (map (emit_order h) us)) = mset (concat (map addrs us))"
    if "set us \<subseteq> set ts" for us
    using that
  proof (induction us)
    case Nil
    then show ?case by simp
  next
    case (Cons u us)
    then show ?case using Sk.IH [of u] by simp
  qed
  have "mset (concat (map addrs ts)) =
        mset (concat (map addrs (filter ?P ts))) + mset (concat (map addrs (filter (\<lambda>t. \<not> ?P t) ts)))"
    by (induction ts) simp_all
  then show ?case by (simp add: e)
qed

lemma set_emit_order: "set (emit_order h t) = set (addrs t)"
  using mset_emit_order [of h t] by (metis set_mset_mset)

lemma emitted_cong:
  assumes r: "reordered h g" and s: "shape h t" and d: "distinct (addrs t)"
    and e: "\<forall>x\<in>set (addrs t). g ! x = h ! x"
  shows "emitted g t = emitted h t"
proof -
  have o: "emit_order g t = emit_order h t"
    using reordered_data(1) [OF r] by (rule emit_order_cong)
  have "map (class_declaration g) (emit_order h t) = map (class_declaration h) (emit_order h t)"
  proof (rule map_cong [OF refl])
    fix x assume "x \<in> set (emit_order h t)"
    then have x: "x \<in> set (addrs t)" by (simp add: set_emit_order)
    have n: "distinct (fields (h ! x))" "set (fields (h ! x)) \<subseteq> set (addrs t)"
      using shape_node [OF s d x] by simp_all
    have "\<forall>f\<in>set (fields (h ! x)). g ! f = h ! f \<and> f < length h"
    proof
      fix f assume "f \<in> set (fields (h ! x))"
      with n(2) have f: "f \<in> set (addrs t)" by auto
      with e shape_node [OF s d f] show "g ! f = h ! f \<and> f < length h" by simp
    qed
    with e x n(1) show "class_declaration g x = class_declaration h x"
      by (intro class_declaration_cong [OF r]) simp_all
  qed
  with o show ?thesis by (simp add: emitted_def del: map_eq_conv)
qed

lemma addrs_eq: "addrs t = root t # strict_addrs t"
  by (cases t) simp

lemma strict_subset: "set (strict_addrs t) \<subseteq> set (addrs t)"
  by (auto simp: addrs_eq)

lemma root_not_strict: "distinct (addrs t) \<Longrightarrow> root t \<notin> set (strict_addrs t)"
  by (simp add: addrs_eq)

lemma shared_addr_same_root:
  assumes "distinct (concat (map addrs ts))" and "u \<in> set ts" and "w \<in> set ts"
    and "x \<in> set (addrs u)" and "x \<in> set (addrs w)"
  shows "root u = root w"
proof (rule ccontr)
  assume "root u \<noteq> root w"
  then have "addrs u \<noteq> addrs w" by (auto simp: addrs_eq)
  moreover have "addrs u \<in> set (map addrs ts)" "addrs w \<in> set (map addrs ts)"
    using assms(2,3) by simp_all
  ultimately have "set (addrs u) \<inter> set (addrs w) = {}"
    using assms(1) unfolding distinct_concat_iff by blast
  with assms(4,5) show False by blast
qed

lemma distinct_child:
  "distinct (concat (map addrs ts)) \<Longrightarrow> u \<in> set ts \<Longrightarrow> distinct (addrs u)"
  by (auto simp: distinct_concat_iff)

lemma roots_not_strict:
  assumes "distinct (concat (map addrs ts))" and "u \<in> set ts" and "w \<in> set ts"
  shows "root u \<notin> set (strict_addrs w)"
proof
  assume s: "root u \<in> set (strict_addrs w)"
  then have "root u \<in> set (addrs w)" using strict_subset by blast
  then have "root u = root w"
    using assms by (intro shared_addr_same_root [of ts u w "root u"]) simp_all
  with s root_not_strict [OF distinct_child [OF assms(1,3)]] show False by simp
qed

lemma height_child: "u \<in> set ts \<Longrightarrow> height u \<le> foldr max (map height ts) 0"
  by (induction ts) (auto simp: max_def)

lemma emitted_Sk:
  "emitted h (Sk a ts) =
     concat (map (emitted h)
               (filter (\<lambda>t. node_class (h ! root t) \<noteq> ParsedInlineFragmentNode) ts))
     @ class_declaration h a
     @ concat (map (emitted h)
                 (filter (\<lambda>t. node_class (h ! root t) = ParsedInlineFragmentNode) ts))"
proof -
  have "concat (map (class_declaration h) (concat (map (emit_order h) us)))
      = concat (map (emitted h) us)" for us
    by (induction us) (simp_all add: emitted_def)
  then show ?thesis by (simp add: emitted_def)
qed

subsection \<open>The traversal of a tree\<close>

lemma traverse_loop_tree:
  assumes IH: "\<And>u g. u \<in> set us \<Longrightarrow> shape g u \<Longrightarrow>
          \<exists>g'. traverse fuel g (root u) = Some (g', emitted g u)
             \<and> (\<forall>x. x \<notin> set (strict_addrs u) \<longrightarrow> g' ! x = g ! x)"
    and sh: "\<forall>u\<in>set us. shape h u"
    and di: "distinct (concat (map addrs us))"
    and re: "reordered h g"
    and ag: "\<forall>u\<in>set us. ((node_class (h ! root u) = ParsedInlineFragmentNode) = want) \<longrightarrow>
               (\<forall>x\<in>set (addrs u). g ! x = h ! x)"
  shows "\<exists>g'. traverse_loop (traverse fuel) want g acc (map root us) =
            Some (g', acc @ concat (map (emitted h)
               (filter (\<lambda>u. (node_class (h ! root u) = ParsedInlineFragmentNode) = want) us)))
          \<and> reordered h g'
          \<and> (\<forall>x. x \<notin> set (concat (map strict_addrs
               (filter (\<lambda>u. (node_class (h ! root u) = ParsedInlineFragmentNode) = want) us)))
               \<longrightarrow> g' ! x = g ! x)"
  using assms
proof (induction us arbitrary: g acc)
  case Nil
  then show ?case by simp
next
  case (Cons u us)
  let ?m = "\<lambda>u. (node_class (h ! root u) = ParsedInlineFragmentNode) = want"
  have cls: "node_class (g ! root u) = node_class (h ! root u)"
    using Cons.prems(4) by (rule reordered_data(1))
  have IH': "\<And>w g. w \<in> set us \<Longrightarrow> shape g w \<Longrightarrow>
          \<exists>g'. traverse fuel g (root w) = Some (g', emitted g w)
             \<and> (\<forall>x. x \<notin> set (strict_addrs w) \<longrightarrow> g' ! x = g ! x)"
    using Cons.prems(1) by simp
  have sh': "\<forall>w\<in>set us. shape h w" using Cons.prems(2) by simp
  have di': "distinct (concat (map addrs us))" using Cons.prems(3) by simp
  have disj: "set (addrs u) \<inter> set (concat (map addrs us)) = {}"
    using Cons.prems(3) by simp
  show ?case
  proof (cases "?m u")
    case True
    have agu: "\<forall>x\<in>set (addrs u). g ! x = h ! x" using Cons.prems(5) True by simp
    have shu: "shape h u" and du: "distinct (addrs u)"
      using Cons.prems(2,3) by simp_all
    have "shape g u"
      using shu reordered_length [OF Cons.prems(4)] agu by (rule shape_cong)
    then obtain g1 where t: "traverse fuel g (root u) = Some (g1, emitted g u)"
      and f1: "\<forall>x. x \<notin> set (strict_addrs u) \<longrightarrow> g1 ! x = g ! x"
      using Cons.prems(1) [of u g] by auto
    have em: "emitted g u = emitted h u"
      using Cons.prems(4) shu du agu by (rule emitted_cong)
    have re1: "reordered h g1"
      using Cons.prems(4) reordered_traverse [OF t] by (rule reordered_trans)
    have ag1: "\<forall>w\<in>set us. ?m w \<longrightarrow> (\<forall>x\<in>set (addrs w). g1 ! x = h ! x)"
    proof (intro ballI impI)
      fix w x assume w: "w \<in> set us" "?m w" and x: "x \<in> set (addrs w)"
      with disj have "x \<notin> set (addrs u)" by auto
      then have "x \<notin> set (strict_addrs u)" using strict_subset by blast
      with f1 have "g1 ! x = g ! x" by simp
      with Cons.prems(5) w x show "g1 ! x = h ! x" by simp
    qed
    from Cons.IH [OF IH' sh' di' re1 ag1, of "acc @ emitted h u"]
    obtain g' where l: "traverse_loop (traverse fuel) want g1 (acc @ emitted h u) (map root us) =
            Some (g', (acc @ emitted h u) @ concat (map (emitted h) (filter ?m us)))"
      and re': "reordered h g'"
      and f': "\<forall>x. x \<notin> set (concat (map strict_addrs (filter ?m us))) \<longrightarrow> g' ! x = g1 ! x"
      by blast
    have "traverse_loop (traverse fuel) want g acc (map root (u # us)) =
            Some (g', acc @ concat (map (emitted h) (filter ?m (u # us))))"
      using True cls t em l by simp
    moreover have "\<forall>x. x \<notin> set (concat (map strict_addrs (filter ?m (u # us)))) \<longrightarrow> g' ! x = g ! x"
      using True f1 f' by simp
    ultimately show ?thesis using re' by blast
  next
    case False
    have ag': "\<forall>w\<in>set us. ?m w \<longrightarrow> (\<forall>x\<in>set (addrs w). g ! x = h ! x)"
      using Cons.prems(5) by simp
    from Cons.IH [OF IH' sh' di' Cons.prems(4) ag', of acc]
    show ?thesis using False cls by simp
  qed
qed

lemma traverse_tree:
  "shape h t \<Longrightarrow> distinct (addrs t) \<Longrightarrow> height t \<le> fuel \<Longrightarrow>
   \<exists>h'. traverse fuel h (root t) = Some (h', emitted h t)
      \<and> (\<forall>x. x \<notin> set (strict_addrs t) \<longrightarrow> h' ! x = h ! x)"
proof (induction t arbitrary: h fuel)
  case (Sk a ts)
  let ?nf = "\<lambda>u. (node_class (h ! root u) = ParsedInlineFragmentNode) = False"
  let ?fr = "\<lambda>u. (node_class (h ! root u) = ParsedInlineFragmentNode) = True"
  from Sk.prems(3) obtain k where fuel: "fuel = Suc k"
    and hk: "foldr max (map height ts) 0 \<le> k"
    by (cases fuel) simp_all
  have al: "a < length h" and fa: "fields (h ! a) = map root ts"
    and sh: "\<forall>u\<in>set ts. shape h u"
    using Sk.prems(1) by (simp_all add: list_all_iff)
  have di: "distinct (concat (map addrs ts))" and an: "a \<notin> set (concat (map addrs ts))"
    using Sk.prems(2) by simp_all
  have IH: "\<And>u g. u \<in> set ts \<Longrightarrow> shape g u \<Longrightarrow>
          \<exists>g'. traverse k g (root u) = Some (g', emitted g u)
             \<and> (\<forall>x. x \<notin> set (strict_addrs u) \<longrightarrow> g' ! x = g ! x)"
  proof -
    fix u g assume u: "u \<in> set ts" and s: "shape g u"
    have "height u \<le> k" using height_child [OF u] hk by simp
    with Sk.IH [OF u s distinct_child [OF di u]]
    show "\<exists>g'. traverse k g (root u) = Some (g', emitted g u)
             \<and> (\<forall>x. x \<notin> set (strict_addrs u) \<longrightarrow> g' ! x = g ! x)" .
  qed
  \<comment> \<open>the first loop\<close>
  have ag1: "\<forall>u\<in>set ts. ?nf u \<longrightarrow> (\<forall>x\<in>set (addrs u). h ! x = h ! x)" by simp
  from traverse_loop_tree [where want = False and acc = "''''", OF IH sh di reordered_refl ag1]
  obtain h1 where l1: "traverse_loop (traverse k) False h '''' (map root ts) =
        Some (h1, concat (map (emitted h) (filter ?nf ts)))"
    and r1: "reordered h h1"
    and f1: "\<forall>x. x \<notin> set (concat (map strict_addrs (filter ?nf ts))) \<longrightarrow> h1 ! x = h ! x"
    by auto
  have strict_in: "set (concat (map strict_addrs us)) \<subseteq> set (concat (map addrs ts))"
    if "set us \<subseteq> set ts" for us
    using that strict_subset by fastforce
  have roots_fixed1: "h1 ! root u = h ! root u" if "u \<in> set ts" for u
  proof -
    have "root u \<notin> set (concat (map strict_addrs (filter ?nf ts)))"
      using roots_not_strict [OF di that] by auto
    with f1 show ?thesis by blast
  qed
  have nin: "x \<notin> set (concat (map strict_addrs us))"
    if "x \<notin> set (concat (map addrs ts))" and "set us \<subseteq> set ts" for x us
    using that strict_in [of us] by blast
  have a1: "h1 ! a = h ! a"
  proof -
    have "a \<notin> set (concat (map strict_addrs (filter ?nf ts)))"
      using an by (rule nin) simp
    with f1 show ?thesis by blast
  qed
  \<comment> \<open>the declaration of the node\<close>
  have dr: "distinct (map root ts)" using di by (rule distinct_roots)
  have code: "class_declaration h1 a = class_declaration h a"
  proof (rule class_declaration_cong [OF r1 a1])
    show "\<forall>f\<in>set (fields (h ! a)). h1 ! f = h ! f \<and> f < length h"
    proof
      fix f assume "f \<in> set (fields (h ! a))"
      then obtain u where u: "u \<in> set ts" and f: "f = root u" using fa by auto
      from sh u have "shape h u" by blast
      then have "root u < length h" by (cases u) simp
      with roots_fixed1 [OF u] f show "h1 ! f = h ! f \<and> f < length h" by simp
    qed
    show "distinct (fields (h ! a))" using dr fa by simp
  qed
  let ?h2 = "fst (class_code_string h1 a)"
  have r2: "reordered h ?h2"
    using r1 reordered_class_code_string by (rule reordered_trans)
  have f2: "h1 ! x = h ! x \<Longrightarrow> x \<notin> set (map root ts) \<Longrightarrow> ?h2 ! x = h ! x" for x
    using class_code_string_frame [of x h1 a] a1 fa by simp
  have f2': "h1 ! x = h ! x \<Longrightarrow> node_class (h ! x) \<noteq> ParsedClassNode \<Longrightarrow> ?h2 ! x = h ! x" for x
    using class_code_string_frame [of x h1 a] by simp
  have a2: "?h2 ! a = h ! a"
  proof (rule f2 [OF a1])
    show "a \<notin> set (map root ts)"
      using an root_in_addrs by fastforce
  qed
  \<comment> \<open>the second loop\<close>
  have ag2: "\<forall>u\<in>set ts. ?fr u \<longrightarrow> (\<forall>x\<in>set (addrs u). ?h2 ! x = h ! x)"
  proof (intro ballI impI)
    fix u x assume u: "u \<in> set ts" and fr: "?fr u" and x: "x \<in> set (addrs u)"
    have x1: "h1 ! x = h ! x"
    proof -
      have "x \<notin> set (concat (map strict_addrs (filter ?nf ts)))"
      proof
        assume "x \<in> set (concat (map strict_addrs (filter ?nf ts)))"
        then obtain w where w: "w \<in> set ts" "?nf w" and "x \<in> set (strict_addrs w)" by auto
        then have "x \<in> set (addrs w)" using strict_subset by blast
        with di u w(1) x have "root u = root w" by (intro shared_addr_same_root)
        with fr w(2) show False by simp
      qed
      with f1 show ?thesis by simp
    qed
    show "?h2 ! x = h ! x"
    proof (cases "x \<in> set (map root ts)")
      case True
      then obtain w where w: "w \<in> set ts" and xw: "x = root w" by auto
      then have "x \<in> set (addrs w)" by simp
      with di u w x have "root u = root w" by (intro shared_addr_same_root)
      with fr xw have "node_class (h ! x) \<noteq> ParsedClassNode" by simp
      with x1 show ?thesis by (rule f2')
    next
      case False
      with x1 show ?thesis by (rule f2)
    qed
  qed
  from traverse_loop_tree [where want = True
      and acc = "concat (map (emitted h) (filter ?nf ts)) @ class_declaration h a",
      OF IH sh di r2 ag2]
  obtain h' where l2: "traverse_loop (traverse k) True ?h2
        (concat (map (emitted h) (filter ?nf ts)) @ class_declaration h a) (map root ts) =
        Some (h', (concat (map (emitted h) (filter ?nf ts)) @ class_declaration h a)
                  @ concat (map (emitted h) (filter ?fr ts)))"
    and f3: "\<forall>x. x \<notin> set (concat (map strict_addrs (filter ?fr ts))) \<longrightarrow> h' ! x = ?h2 ! x"
    by auto
  have "traverse fuel h (root (Sk a ts)) = Some (h', emitted h (Sk a ts))"
    using l1 l2 a2 code fa
    by (simp add: fuel split_beta class_declaration_def [symmetric] emitted_Sk)
  moreover have "\<forall>x. x \<notin> set (strict_addrs (Sk a ts)) \<longrightarrow> h' ! x = h ! x"
  proof (intro allI impI)
    fix x assume "x \<notin> set (strict_addrs (Sk a ts))"
    then have x: "x \<notin> set (concat (map addrs ts))" by simp
    have "x \<notin> set (concat (map strict_addrs (filter ?fr ts)))"
      using x by (rule nin) simp
    with f3 have "h' ! x = ?h2 ! x" by blast
    moreover have "x \<notin> set (concat (map strict_addrs (filter ?nf ts)))"
      using x by (rule nin) simp
    with f1 have "h1 ! x = h ! x" by blast
    moreover have "x \<notin> set (map root ts)" using x root_in_addrs by fastforce
    ultimately show "h' ! x = h ! x" using f2 by simp
  qed
  ultimately show ?case by blast
qed

section \<open>The order of the declarations\<close>

lemma before_embed: "before x y l \<Longrightarrow> before x y (p @ l @ q)"
proof -
  assume "before x y l"
  then obtain xs ys zs where "l = xs @ [x] @ ys @ [y] @ zs" by (auto simp: before_def)
  then have "p @ l @ q = (p @ xs) @ [x] @ ys @ [y] @ (zs @ q)" by simp
  then show ?thesis unfolding before_def by blast
qed

lemma before_left: "x \<in> set l \<Longrightarrow> before x y (l @ [y] @ r)"
proof -
  assume "x \<in> set l"
  then obtain xs ys where "l = xs @ [x] @ ys" by (auto dest: split_list)
  then have "l @ [y] @ r = xs @ [x] @ ys @ [y] @ r" by simp
  then show ?thesis unfolding before_def by blast
qed

lemma before_right: "y \<in> set r \<Longrightarrow> before x y (l @ [x] @ r)"
proof -
  assume "y \<in> set r"
  then obtain ys zs where "r = ys @ [y] @ zs" by (auto dest: split_list)
  then have "l @ [x] @ r = l @ [x] @ ys @ [y] @ zs" by simp
  then show ?thesis unfolding before_def by blast
qed

lemma concat_segment:
  assumes "u \<in> set us"
  shows "\<exists>p q. concat (map f us) = p @ f u @ q"
proof -
  from assms obtain ys zs where "us = ys @ u # zs" by (auto dest: split_list)
  then have "concat (map f us) = concat (map f ys) @ f u @ concat (map f zs)" by simp
  then show ?thesis by (intro exI)
qed

lemma emit_order_child_segment:
  assumes "u \<in> set ts"
  shows "\<exists>p q. emit_order h (Sk a ts) = p @ emit_order h u @ q"
proof -
  let ?F = "filter (\<lambda>t. node_class (h ! root t) = ParsedInlineFragmentNode) ts"
  let ?N = "filter (\<lambda>t. node_class (h ! root t) \<noteq> ParsedInlineFragmentNode) ts"
  have o: "emit_order h (Sk a ts) =
      concat (map (emit_order h) ?N) @ [a] @ concat (map (emit_order h) ?F)"
    by (simp only: emit_order.simps)
  show ?thesis
  proof (cases "node_class (h ! root u) = ParsedInlineFragmentNode")
    case True
    with assms have "u \<in> set ?F" by simp
    from concat_segment [OF this, of "emit_order h"]
    obtain p q where e: "concat (map (emit_order h) ?F) = p @ emit_order h u @ q"
      by (elim exE)
    have "emit_order h (Sk a ts) =
        (concat (map (emit_order h) ?N) @ [a] @ p) @ emit_order h u @ q"
      unfolding o e by (simp only: append_assoc)
    then show ?thesis by (intro exI)
  next
    case False
    with assms have "u \<in> set ?N" by simp
    from concat_segment [OF this, of "emit_order h"]
    obtain p q where e: "concat (map (emit_order h) ?N) = p @ emit_order h u @ q"
      by (elim exE)
    have "emit_order h (Sk a ts) =
        p @ emit_order h u @ (q @ [a] @ concat (map (emit_order h) ?F))"
      unfolding o e by (simp only: append_assoc)
    then show ?thesis by (intro exI)
  qed
qed

lemma order_at_node:
  assumes "u \<in> set ts" and "x \<in> set (addrs u)"
  shows "if node_class (h ! root u) = ParsedInlineFragmentNode
         then before a x (emit_order h (Sk a ts)) else before x a (emit_order h (Sk a ts))"
proof (cases "node_class (h ! root u) = ParsedInlineFragmentNode")
  case True
  let ?F = "filter (\<lambda>t. node_class (h ! root t) = ParsedInlineFragmentNode) ts"
  have "x \<in> set (emit_order h u)" using assms(2) by (simp add: set_emit_order)
  with assms(1) True have "x \<in> set (concat (map (emit_order h) ?F))" by auto
  then have "before a x (concat (map (emit_order h)
         (filter (\<lambda>t. node_class (h ! root t) \<noteq> ParsedInlineFragmentNode) ts))
       @ [a] @ concat (map (emit_order h) ?F))"
    by (rule before_right)
  with True show ?thesis by simp
next
  case False
  let ?N = "filter (\<lambda>t. node_class (h ! root t) \<noteq> ParsedInlineFragmentNode) ts"
  have "x \<in> set (emit_order h u)" using assms(2) by (simp add: set_emit_order)
  with assms(1) False have "x \<in> set (concat (map (emit_order h) ?N))" by auto
  then have "before x a (concat (map (emit_order h) ?N) @ [a]
       @ concat (map (emit_order h)
           (filter (\<lambda>t. node_class (h ! root t) = ParsedInlineFragmentNode) ts)))"
    by (rule before_left)
  with False show ?thesis by simp
qed

lemma subtrees_set:
  "set (subtrees (Sk a ts)) = insert (Sk a ts) (\<Union>u\<in>set ts. set (subtrees u))"
  by simp

lemma before_subtree:
  "s \<in> set (subtrees t) \<Longrightarrow> before x y (emit_order h s) \<Longrightarrow> before x y (emit_order h t)"
proof (induction t)
  case (Sk a ts)
  show ?case
  proof (cases "s = Sk a ts")
    case True
    show ?thesis by (rule Sk.prems(2) [unfolded True])
  next
    case False
    with Sk.prems(1) obtain u where u: "u \<in> set ts" and s: "s \<in> set (subtrees u)"
      unfolding subtrees_set by blast
    from u s Sk.prems(2) have b: "before x y (emit_order h u)" by (rule Sk.IH)
    from emit_order_child_segment [OF u] obtain p q
      where e: "emit_order h (Sk a ts) = p @ emit_order h u @ q" by blast
    have "before x y (p @ emit_order h u @ q)" using b by (rule before_embed)
    then show ?thesis unfolding e .
  qed
qed

lemma traverse_tree_text:
  assumes "tree h t" and "height t \<le> fuel"
  shows "\<exists>h'. traverse fuel h (root t) =
                 Some (h', concat (map (class_declaration h) (emit_order h t)))"
proof -
  have "shape h t" "distinct (addrs t)" using assms(1) by (simp_all add: tree_def)
  from traverse_tree [OF this assms(2)] obtain h' where
    "traverse fuel h (root t) = Some (h', emitted h t)" by (elim exE conjE)
  then have "traverse fuel h (root t) =
      Some (h', concat (map (class_declaration h) (emit_order h t)))"
    unfolding emitted_def .
  then show ?thesis by (rule exI)
qed

lemma order_in_tree:
  assumes s: "Sk a ts \<in> set (subtrees t)" and u: "u \<in> set ts" and x: "x \<in> set (addrs u)"
  shows "if node_class (h ! root u) = ParsedInlineFragmentNode
         then before a x (emit_order h t) else before x a (emit_order h t)"
proof (cases "node_class (h ! root u) = ParsedInlineFragmentNode")
  case True
  have "before a x (emit_order h (Sk a ts))"
    using order_at_node [OF u x, of h a] True by (simp only: simp_thms if_True)
  with s have "before a x (emit_order h t)" by (rule before_subtree)
  then show ?thesis using True by (simp only: simp_thms if_True)
next
  case False
  have "before x a (emit_order h (Sk a ts))"
    using order_at_node [OF u x, of h a] False by (simp only: if_False)
  with s have "before x a (emit_order h t)" by (rule before_subtree)
  then show ?thesis using False by (simp only: if_False)
qed



section \<open>The store the visitor builds\<close>

subsection \<open>Adding a node keeps the store well formed\<close>

lemma well_formed_parent_less:
  assumes "well_formed h" and "c < length h" and "parent (h ! c) = Some p"
  shows "p < c"
proof (cases "c = 0")
  case True
  with assms show ?thesis by (simp add: well_formed_def)
next
  case False
  with assms(1,2) obtain q where "q < c" "parent (h ! c) = Some q"
    unfolding well_formed_def by blast
  with assms(3) show ?thesis by simp
qed

lemma well_formed_child:
  assumes "well_formed h" and "a < length h" and "c \<in> set (fields (h ! a))"
  shows "c < length h" and "parent (h ! c) = Some a" and "a < c"
proof -
  from assms show c: "c < length h" and p: "parent (h ! c) = Some a"
    unfolding well_formed_def by blast+
  from assms(1) c p show "a < c" by (rule well_formed_parent_less)
qed

lemma length_append_node [simp]: "length (append_node h p new) = Suc (length h)"
  by (simp add: append_node_def)

lemma nth_append_node:
  assumes "p < length h"
  shows "append_node h p new ! a =
     (if a = p then set_fields (fields (h ! p) @ [length h]) (h ! p)
      else if a = length h then new else (h @ [new]) ! a)"
  using assms by (simp add: append_node_def nth_list_update nth_append)

lemma parent_append_node:
  assumes "p < length h" and "a \<le> length h"
  shows "parent (append_node h p new ! a) = (if a = length h then parent new else parent (h ! a))"
  using assms by (auto simp: nth_append_node nth_append)

lemma fields_append_node:
  assumes "p < length h" and "a \<le> length h"
  shows "fields (append_node h p new ! a) =
     (if a = p then fields (h ! p) @ [length h]
      else if a = length h then fields new else fields (h ! a))"
  using assms by (auto simp: nth_append_node nth_append)

lemma data_append_node:
  assumes "p < length h" and "a < length h"
  shows "node_class (append_node h p new ! a) = node_class (h ! a)"
    and "parsed_type (append_node h p new ! a) = parsed_type (h ! a)"
  using assms by (auto simp: nth_append_node nth_append)

lemma well_formed_append_node:
  assumes wf: "well_formed h" and p: "p < length h"
    and np: "parent new = Some p" and nf: "fields new = []"
  shows "well_formed (append_node h p new)"
proof -
  let ?h = "append_node h p new"
  let ?n = "length h"
  have P: "\<And>a. a \<le> ?n \<Longrightarrow> parent (?h ! a) = (if a = ?n then Some p else parent (h ! a))"
    using parent_append_node [OF p] np by simp
  have F: "\<And>a. a \<le> ?n \<Longrightarrow> fields (?h ! a) =
     (if a = p then fields (h ! p) @ [?n] else if a = ?n then [] else fields (h ! a))"
    using fields_append_node [OF p] nf by simp
  have 1: "?h \<noteq> []" by (simp add: append_node_def)
  have 2: "parent (?h ! 0) = None"
    using wf p P [of 0] by (simp add: well_formed_def)
  have 3: "\<forall>c<length ?h. 0 < c \<longrightarrow> (\<exists>q<c. parent (?h ! c) = Some q)"
  proof (intro allI impI)
    fix c assume c: "c < length ?h" and c0: "0 < c"
    show "\<exists>q<c. parent (?h ! c) = Some q"
    proof (cases "c = ?n")
      case True
      with P [of c] p show ?thesis by auto
    next
      case False
      with c have cl: "c < ?n" by simp
      with wf c0 obtain q where "q < c" "parent (h ! c) = Some q"
        unfolding well_formed_def by blast
      with P [of c] cl show ?thesis by auto
    qed
  qed
  have 4: "\<forall>a<length ?h. \<forall>c. c \<in> set (fields (?h ! a)) \<longleftrightarrow>
             (c < length ?h \<and> parent (?h ! c) = Some a)"
  proof (intro allI impI)
    fix a c assume a: "a < length ?h"
    then have al: "a \<le> ?n" by simp
    have old: "c \<in> set (fields (h ! a)) \<longleftrightarrow> (c < ?n \<and> parent (h ! c) = Some a)"
      if "a < ?n"
      using wf that unfolding well_formed_def by blast
    have less: "parent (h ! c) = Some b \<Longrightarrow> c < ?n \<Longrightarrow> b < c" for b
      using wf by (rule well_formed_parent_less)
    show "c \<in> set (fields (?h ! a)) \<longleftrightarrow> (c < length ?h \<and> parent (?h ! c) = Some a)"
    proof (cases "c < ?n")
      case True
      then have pc: "parent (?h ! c) = parent (h ! c)" using P [of c] by simp
      show ?thesis
      proof (cases "a = ?n")
        case an: True
        with F [of a] p have "fields (?h ! a) = []" by auto
        moreover have "parent (h ! c) \<noteq> Some a"
          using less [of a] True an by auto
        ultimately show ?thesis using pc by simp
      next
        case False
        with al have a': "a < ?n" by simp
        have "set (fields (?h ! a)) = set (fields (h ! a)) \<or>
              set (fields (?h ! a)) = insert ?n (set (fields (h ! a)))"
          using F [OF al] False by auto
        with True have "c \<in> set (fields (?h ! a)) \<longleftrightarrow> c \<in> set (fields (h ! a))" by auto
        with old [OF a'] True pc show ?thesis by simp
      qed
    next
      case False
      show ?thesis
      proof (cases "c = ?n")
        case cn: True
        then have pc: "parent (?h ! c) = Some p" using P [of c] by simp
        have notold: "?n \<notin> set (fields (h ! b))" if "b < ?n" for b
          using wf that unfolding well_formed_def by blast
        show ?thesis
        proof (cases "a = p")
          case True
          with F [OF al] cn pc show ?thesis by simp
        next
          case ap: False
          show ?thesis
          proof (cases "a = ?n")
            case True
            with F [OF al] ap pc p show ?thesis by auto
          next
            case False
            with al have "a < ?n" by simp
            with F [OF al] ap False notold cn pc show ?thesis by auto
          qed
        qed
      next
        case cn: False
        with False have big: "\<not> c < Suc ?n" by simp
        have "c \<notin> set (fields (h ! b))" if "b < ?n" for b
          using wf that False unfolding well_formed_def by blast
        with F [OF al] big cn p al show ?thesis by (auto split: if_splits)
      qed
    qed
  qed
  have 5: "\<forall>a<length ?h. distinct (fields (?h ! a))"
  proof (intro allI impI)
    fix a assume "a < length ?h"
    then have al: "a \<le> ?n" by simp
    have d: "distinct (fields (h ! b))" and notin: "?n \<notin> set (fields (h ! b))"
      if "b < ?n" for b
      using wf that unfolding well_formed_def by blast+
    show "distinct (fields (?h ! a))"
      using F [OF al] al d [of a] d [OF p] notin [OF p] by (auto split: if_splits)
  qed
  from 1 2 3 4 5 show ?thesis unfolding well_formed_def by blast
qed

subsection \<open>Type resolution returns and leaves the store alone\<close>

lemma dedup_loop_returns:
  assumes wf: "well_formed h" and c: "c < length h"
  shows "\<exists>n. dedup_loop h cache (Some c) name = Some n"
  using c
proof (induction c arbitrary: name rule: less_induct)
  case (less c)
  show ?case
  proof (cases "parent (h ! c) \<noteq> None \<and> name \<in> cache")
    case True
    then obtain p where p: "parent (h ! c) = Some p" by auto
    from wf less.prems p have pc: "p < c" by (rule well_formed_parent_less)
    with less.prems have "p < length h" by simp
    from less.IH [OF pc this]
    obtain n where "dedup_loop h cache (Some p)
        (unwrapped_python_type (parsed_type (h ! c)) @ ''_'' @ name) = Some n"
      by blast
    with True p show ?thesis by (subst dedup_loop.simps) simp
  next
    case False
    then show ?thesis by (subst dedup_loop.simps) auto
  qed
qed

lemma dedup_loop_returns_cursor:
  assumes "visitor_ok v"
  shows "\<exists>n. dedup_loop (nodes v) cache (self_parent v) name = Some n"
proof -
  from assms obtain c where "c < length (nodes v)" "self_parent v = Some c"
    and "well_formed (nodes v)"
    unfolding visitor_ok_def by blast
  with dedup_loop_returns [of "nodes v" c cache name] show ?thesis by simp
qed

lemma same_place_ok: "visitor_ok v \<Longrightarrow> same_place v v' \<Longrightarrow> visitor_ok v'"
  by (simp add: visitor_ok_def same_place_def)

lemma to_python_type_result:
  assumes "visitor_ok v"
  shows "\<exists>r. to_python_type m v t = Some r
           \<and> (\<forall>v' n. r = Inr (v', n) \<longrightarrow> same_place v v')
           \<and> (is_scalar_type t \<or> class_name_of t \<noteq> Inl IndexError \<longrightarrow> (\<exists>v' n. r = Inr (v', n)))"
proof (cases "is_scalar_type t")
  case True
  then show ?thesis by (simp add: to_python_type_def same_place_def)
next
  case False
  show ?thesis
  proof (cases "class_name_of t")
    case (Inl e)
    then have "e = IndexError" by (auto simp: class_name_of_def Let_def split: if_splits)
    with Inl False show ?thesis by (simp add: to_python_type_def)
  next
    case (Inr cn)
    from dedup_loop_returns_cursor [OF assms, of "deduplication_cache v" cn]
    obtain n where "dedup_loop (nodes v) (deduplication_cache v) (self_parent v) cn = Some n"
      by blast
    with Inr False show ?thesis by (simp add: to_python_type_def same_place_def)
  qed
qed

lemma bottom_type_not_wrapped:
  "\<not> is_non_null (bottom_type t) \<and> \<not> is_list (bottom_type t)"
proof (induction t rule: bottom_type.induct)
  case (1 t)
  show ?case
  proof (cases "is_non_null (strip_list (strip_non_null t)) \<or> is_list (strip_list (strip_non_null t))")
    case True
    from "1.IH" [OF refl True]
    show ?thesis unfolding bottom_type_further [OF True] .
  next
    case False
    have "\<not> is_non_null (strip_list (strip_non_null t))
          \<and> \<not> is_list (strip_list (strip_non_null t))"
      using False by blast
    then show ?thesis unfolding bottom_type_done [OF False] .
  qed
qed

lemma parse_type_result:
  assumes "visitor_ok v"
  shows "\<exists>r. parse_type m v t = Some r
           \<and> (\<forall>v' ft. r = Inr (v', ft) \<longrightarrow> same_place v v')
           \<and> (resolvable_type (Some t) \<longrightarrow> (\<exists>v' ft. r = Inr (v', ft)))"
proof -
  from to_python_type_result [OF assms, of m "bottom_type t"]
  obtain r where r: "to_python_type m v (bottom_type t) = Some r"
    and s: "\<forall>v' n. r = Inr (v', n) \<longrightarrow> same_place v v'"
    and ok: "is_scalar_type (bottom_type t) \<or> class_name_of (bottom_type t) \<noteq> Inl IndexError
             \<longrightarrow> (\<exists>v' n. r = Inr (v', n))"
    by blast
  show ?thesis
  proof (cases r)
    case (Inl e)
    with r ok show ?thesis by (simp add: parse_type_closed_form)
  next
    case (Inr x)
    obtain v' n where x: "x = (v', n)" by (cases x)
    with Inr s have "same_place v v'" by simp
    with r Inr x show ?thesis by (simp add: parse_type_closed_form)
  qed
qed

subsection \<open>The enter methods\<close>

lemma append_current_entered:
  assumes "visitor_ok v" and "parent new = self_parent v" and "fields new = []"
  shows "\<exists>v'. append_current v new = Some (Inr v') \<and> entered v v'"
proof -
  from assms(1) obtain p where p: "self_parent v = Some p" and pl: "p < length (nodes v)"
    unfolding visitor_ok_def by blast
  let ?v = "Visitor (append_node (nodes v) p new) (parsed v) (Some (length (nodes v)))
              (deduplication_cache v)"
  have "append_current v new = Some (Inr ?v)"
    using p pl by (simp add: append_current_def append_node_def Let_def nth_append)
  moreover have "entered v ?v"
    unfolding entered_def using p assms(2,3) by (intro exI [of _ p] exI [of _ new]) simp
  ultimately show ?thesis by blast
qed

lemma entered_ok:
  assumes ok: "visitor_ok v" and e: "entered v v'"
  shows "visitor_ok v'"
    and "length (nodes v') = Suc (length (nodes v))"
    and "self_parent v' = Some (length (nodes v))"
    and "parent (nodes v' ! length (nodes v)) = self_parent v"
    and "\<forall>a<length (nodes v). parent (nodes v' ! a) = parent (nodes v ! a)"
proof -
  from e obtain p new where p: "self_parent v = Some p" and np: "parent new = Some p"
    and nf: "fields new = []" and h: "nodes v' = append_node (nodes v) p new"
    and c: "self_parent v' = Some (length (nodes v))" and r: "parsed v' = parsed v"
    unfolding entered_def by blast
  from ok p have pl: "p < length (nodes v)" and wf: "well_formed (nodes v)"
    unfolding visitor_ok_def by auto
  have wf': "well_formed (nodes v')"
    unfolding h using wf pl np nf by (rule well_formed_append_node)
  have 0: "0 < length (nodes v)" using pl by (cases "nodes v") simp_all
  show "length (nodes v') = Suc (length (nodes v))" by (simp add: h)
  show "self_parent v' = Some (length (nodes v))" by (rule c)
  show "parent (nodes v' ! length (nodes v)) = self_parent v"
    using parent_append_node [OF pl, of "length (nodes v)" new] np p by (simp add: h)
  show "\<forall>a<length (nodes v). parent (nodes v' ! a) = parent (nodes v ! a)"
    using parent_append_node [OF pl, of _ new] by (simp add: h)
  show "visitor_ok v'"
    unfolding visitor_ok_def
    using wf' r c ok data_append_node [OF pl 0, of new]
    by (simp add: visitor_ok_def h)
qed

lemma same_place_entered: "same_place v v1 \<Longrightarrow> entered v1 v' \<Longrightarrow> entered v v'"
  by (simp add: same_place_def entered_def)

lemma enter_operation_definition_result:
  assumes "visitor_ok v"
  shows "\<exists>r. enter_operation_definition v name = Some r
           \<and> (\<forall>v'. r = Inr v' \<longrightarrow> entered v v')
           \<and> (name \<noteq> None \<longrightarrow> (\<exists>v'. r = Inr v'))"
proof (cases name)
  case None
  then show ?thesis by (simp add: enter_operation_definition_def)
next
  case (Some n)
  let ?new = "Node ParsedOperationNode (self_parent v) []
               \<lparr>unwrapped_python_type = n,
                wrapped_python_type = ''Optional[list['' @ n @ '']]'',
                is_primitive = False\<rparr> '''' ''''"
  from append_current_entered [OF assms, of ?new]
  obtain v' where "append_current v ?new = Some (Inr v')" and "entered v v'" by auto
  with Some show ?thesis by (simp add: enter_operation_definition_def)
qed

lemma enter_field_result:
  assumes "visitor_ok v"
  shows "\<exists>r. enter_field m v name alias ty = Some r
           \<and> (\<forall>v'. r = Inr v' \<longrightarrow> entered v v')
           \<and> (resolvable_type ty \<longrightarrow> (\<exists>v'. r = Inr v'))"
proof (cases ty)
  case None
  then show ?thesis by (simp add: enter_field_def)
next
  case (Some t)
  from parse_type_result [OF assms, of m t]
  obtain r where r: "parse_type m v t = Some r"
    and s: "\<forall>v' ft. r = Inr (v', ft) \<longrightarrow> same_place v v'"
    and ok: "resolvable_type (Some t) \<longrightarrow> (\<exists>v' ft. r = Inr (v', ft))"
    by blast
  show ?thesis
  proof (cases r)
    case (Inl e)
    with r ok Some show ?thesis by (simp add: enter_field_def)
  next
    case (Inr x)
    obtain v1 ft where x: "x = (v1, ft)" by (cases x)
    with Inr s have sp: "same_place v v1" by simp
    from assms sp have ok1: "visitor_ok v1" by (rule same_place_ok)
    let ?new = "Node ParsedClassNode (self_parent v1) [] ft
                  (case alias of Some a \<Rightarrow> a | None \<Rightarrow> name)
                  (graphql_field_name_to_python m name)"
    from append_current_entered [OF ok1, of ?new]
    obtain v' where a: "append_current v1 ?new = Some (Inr v')" and e1: "entered v1 v'"
      by auto
    from sp e1 have "entered v v'" by (rule same_place_entered)
    with a r Inr x Some show ?thesis by (simp add: enter_field_def Let_def)
  qed
qed

lemma enter_inline_fragment_result:
  assumes "visitor_ok v"
  shows "\<exists>r. enter_inline_fragment m v ty = Some r
           \<and> (\<forall>v'. r = Inr v' \<longrightarrow> entered v v')
           \<and> (resolvable_type ty \<longrightarrow> (\<exists>v'. r = Inr v'))"
proof (cases ty)
  case None
  then show ?thesis by (simp add: enter_inline_fragment_def)
next
  case (Some t)
  from parse_type_result [OF assms, of m t]
  obtain r where r: "parse_type m v t = Some r"
    and s: "\<forall>v' ft. r = Inr (v', ft) \<longrightarrow> same_place v v'"
    and ok: "resolvable_type (Some t) \<longrightarrow> (\<exists>v' ft. r = Inr (v', ft))"
    by blast
  show ?thesis
  proof (cases r)
    case (Inl e)
    with r ok Some show ?thesis by (simp add: enter_inline_fragment_def)
  next
    case (Inr x)
    obtain v1 ft where x: "x = (v1, ft)" by (cases x)
    with Inr s have sp: "same_place v v1" by simp
    from assms sp have ok1: "visitor_ok v1" by (rule same_place_ok)
    let ?new = "Node ParsedInlineFragmentNode (self_parent v1) [] ft '''' ''''"
    from append_current_entered [OF ok1, of ?new]
    obtain v' where a: "append_current v1 ?new = Some (Inr v')" and e1: "entered v1 v'"
      by auto
    from sp e1 have "entered v v'" by (rule same_place_entered)
    with a r Inr x Some show ?thesis by (simp add: enter_inline_fragment_def)
  qed
qed

subsection \<open>The visit of a selection\<close>

lemma visited_refl: "visitor_ok v \<Longrightarrow> visited v v"
  by (simp add: visited_def)

lemma visited_trans:
  assumes "visited a b" and "visited b c"
  shows "visited a c"
  using assms unfolding visited_def by auto

lemma leave_sel [simp]:
  "nodes (leave v) = nodes v" "parsed (leave v) = parsed v"
  "self_parent (leave v) =
     (case self_parent v of None \<Rightarrow> None | Some c \<Rightarrow> parent (nodes v ! c))"
  by (simp_all add: leave_def)

lemma entered_leave:
  assumes ok: "visitor_ok v" and e: "entered v v1" and vis: "visited v1 v2"
  shows "visited v (leave v2)"
proof -
  let ?n = "length (nodes v)"
  note E = entered_ok [OF ok e]
  from vis have ok2: "visitor_ok v2" and c2: "self_parent v2 = self_parent v1"
    and l2: "length (nodes v1) \<le> length (nodes v2)"
    and p2: "\<forall>a<length (nodes v1). parent (nodes v2 ! a) = parent (nodes v1 ! a)"
    unfolding visited_def by blast+
  have cur: "self_parent v2 = Some ?n" using c2 E(3) by simp
  have "parent (nodes v2 ! ?n) = parent (nodes v1 ! ?n)" using p2 E(2) by simp
  then have bk: "self_parent (leave v2) = self_parent v" using cur E(4) by simp
  from ok obtain c where c: "c < ?n" "self_parent v = Some c" unfolding visitor_ok_def by blast
  have len: "?n \<le> length (nodes v2)" using l2 E(2) by simp
  have "visitor_ok (leave v2)"
    using ok2 bk c len unfolding visitor_ok_def by auto
  moreover have "\<forall>a<?n. parent (nodes (leave v2) ! a) = parent (nodes v ! a)"
    using p2 E(2,5) by simp
  ultimately show ?thesis using bk len by (simp add: visited_def)
qed

lemma enter_visit_leave:
  assumes ok: "visitor_ok v"
    and en: "\<exists>r. E = Some r \<and> (\<forall>v'. r = Inr v' \<longrightarrow> entered v v') \<and> (R1 \<longrightarrow> (\<exists>v'. r = Inr v'))"
    and ih: "\<And>x. E = Some (Inr x) \<Longrightarrow> visitor_ok x \<Longrightarrow> visit_result x (V x) R2"
  shows "visit_result v
           (bind_result E (\<lambda>v1. bind_result (V v1) (\<lambda>v2. Some (Inr (leave v2))))) (R1 \<and> R2)"
proof -
  from en obtain r where r: "E = Some r" and re: "\<forall>v'. r = Inr v' \<longrightarrow> entered v v'"
    and rr: "R1 \<longrightarrow> (\<exists>v'. r = Inr v')" by blast
  show ?thesis
  proof (cases r)
    case (Inl e)
    with r rr show ?thesis by (simp add: visit_result_def)
  next
    case (Inr v1)
    with re have e1: "entered v v1" by simp
    from ok e1 have ok1: "visitor_ok v1" by (rule entered_ok(1))
    from r Inr have "E = Some (Inr v1)" by simp
    from ih [OF this ok1] obtain x where x: "V v1 = Some x"
      and xv: "\<forall>v'. x = Inr v' \<longrightarrow> visited v1 v'"
      and xr: "R2 \<longrightarrow> (\<exists>v'. x = Inr v')"
      unfolding visit_result_def by blast
    show ?thesis
    proof (cases x)
      case (Inl e)
      with r Inr x xr show ?thesis by (simp add: visit_result_def)
    next
      case (Inr v2)
      with xv have "visited v1 v2" by simp
      with ok e1 have "visited v (leave v2)" by (rule entered_leave)
      with r \<open>r = Inr v1\<close> x Inr show ?thesis by (simp add: visit_result_def)
    qed
  qed
qed

lemma visit_result_bind:
  assumes a: "visit_result v r R1"
    and b: "\<And>x. r = Some (Inr x) \<Longrightarrow> visited v x \<Longrightarrow> visit_result x (f x) R2"
  shows "visit_result v (bind_result r f) (R1 \<and> R2)"
proof -
  from a obtain x where x: "r = Some x" and xv: "\<forall>v'. x = Inr v' \<longrightarrow> visited v v'"
    and xr: "R1 \<longrightarrow> (\<exists>v'. x = Inr v')"
    unfolding visit_result_def by blast
  show ?thesis
  proof (cases x)
    case (Inl e)
    with x xr show ?thesis by (simp add: visit_result_def)
  next
    case (Inr v1)
    with xv have v1: "visited v v1" by simp
    from x Inr have "r = Some (Inr v1)" by simp
    from b [OF this v1] obtain y where y: "f v1 = Some y"
      and yv: "\<forall>v'. y = Inr v' \<longrightarrow> visited v1 v'"
      and yr: "R2 \<longrightarrow> (\<exists>v'. y = Inr v')"
      unfolding visit_result_def by blast
    have "\<forall>v'. y = Inr v' \<longrightarrow> visited v v'"
      using yv v1 visited_trans by blast
    with x Inr y yr show ?thesis by (simp add: visit_result_def)
  qed
qed

lemma visit_selection_result:
  "visitor_ok v \<Longrightarrow> visit_result v (visit_selection m v s) (resolvable_selection s)"
  "visitor_ok v \<Longrightarrow>
   visit_result v (visit_selections m v ss) (list_all resolvable_selection ss)"
proof (induction m v s and m v ss rule: visit_selection_visit_selections.induct)
  case (1 m v name al graphql_type selections)
  have "visit_result v
     (bind_result (enter_field m v name al graphql_type)
        (\<lambda>v1. bind_result (visit_selections m v1 selections) (\<lambda>v2. Some (Inr (leave v2)))))
     (resolvable_type graphql_type \<and> list_all resolvable_selection selections)"
    using "1.prems" enter_field_result [OF "1.prems"] "1.IH"
    by (rule enter_visit_leave)
  then show ?case by simp
next
  case (2 m v graphql_type selections)
  have "visit_result v
     (bind_result (enter_inline_fragment m v graphql_type)
        (\<lambda>v1. bind_result (visit_selections m v1 selections) (\<lambda>v2. Some (Inr (leave v2)))))
     (resolvable_type graphql_type \<and> list_all resolvable_selection selections)"
    using "2.prems" enter_inline_fragment_result [OF "2.prems"] "2.IH"
    by (rule enter_visit_leave)
  then show ?case by simp
next
  case (3 m v name)
  then show ?case by (simp add: visit_result_def visited_refl)
next
  case (4 m v)
  then show ?case by (simp add: visit_result_def visited_refl)
next
  case (5 m v s rest)
  have "visit_result v
     (bind_result (visit_selection m v s) (\<lambda>v1. visit_selections m v1 rest))
     (resolvable_selection s \<and> list_all resolvable_selection rest)"
  proof (rule visit_result_bind)
    show "visit_result v (visit_selection m v s) (resolvable_selection s)"
      using "5.prems" by (rule "5.IH"(1))
  next
    fix x assume x: "visit_selection m v s = Some (Inr x)" and "visited v x"
    then have "visitor_ok x" by (simp add: visited_def)
    with x show "visit_result x (visit_selections m x rest) (list_all resolvable_selection rest)"
      by (rule "5.IH"(2))
  qed
  then show ?case by simp
qed

subsection \<open>The visit of a document\<close>

lemma visitor_ok_init: "visitor_ok init_visitor"
proof -
  let ?root = "Node ParsedNode None []
      \<lparr>unwrapped_python_type = '''', wrapped_python_type = '''', is_primitive = False\<rparr>
      '''' ''''"
  have "c < length [?root] \<Longrightarrow> c = 0" for c by simp
  then have "well_formed [?root]" unfolding well_formed_def by auto
  then show ?thesis by (simp add: visitor_ok_def init_visitor_def)
qed

lemma visit_definition_result:
  assumes "visitor_ok v"
  shows "visit_result v (visit_definition m v d) (resolvable_definition d)"
proof (cases d)
  case (OperationDefinitionNode name selections)
  have "visit_result v
     (bind_result (enter_operation_definition v name)
        (\<lambda>v1. bind_result (visit_selections m v1 selections) (\<lambda>v2. Some (Inr (leave v2)))))
     (name \<noteq> None \<and> list_all resolvable_selection selections)"
    using assms enter_operation_definition_result [OF assms]
  proof (rule enter_visit_leave)
    fix x assume "visitor_ok x"
    then show "visit_result x (visit_selections m x selections)
                 (list_all resolvable_selection selections)"
      by (rule visit_selection_result(2))
  qed
  with OperationDefinitionNode show ?thesis by simp
next
  case (FragmentDefinitionNode name selections)
  with visit_selection_result(2) [OF assms, of m selections] show ?thesis by simp
qed

lemma visit_document_result:
  "visitor_ok v \<Longrightarrow> visit_result v (visit m v ds) (list_all resolvable_definition ds)"
proof (induction ds arbitrary: v)
  case Nil
  then show ?case by (simp add: visit_result_def visited_refl)
next
  case (Cons d ds)
  have "visit_result v (bind_result (visit_definition m v d) (\<lambda>v1. visit m v1 ds))
          (resolvable_definition d \<and> list_all resolvable_definition ds)"
  proof (rule visit_result_bind)
    show "visit_result v (visit_definition m v d) (resolvable_definition d)"
      using Cons.prems by (rule visit_definition_result)
  next
    fix x assume "visited v x"
    then have "visitor_ok x" by (simp add: visited_def)
    then show "visit_result x (visit m x ds) (list_all resolvable_definition ds)"
      by (rule Cons.IH)
  qed
  then show ?case by simp
qed

lemma visit_init:
  "\<exists>x. visit m init_visitor ds = Some x
     \<and> (\<forall>v'. x = Inr v' \<longrightarrow> visitor_ok v')
     \<and> (list_all resolvable_definition ds \<longrightarrow> (\<exists>v'. x = Inr v'))"
  using visit_document_result [OF visitor_ok_init, of m ds]
  unfolding visit_result_def visited_def by blast

lemma parse_returns_or_raises: "\<exists>r. QueryParser_parse lib m query schema = Some r"
proof -
  from visit_init [of m] have "\<And>ds. \<exists>x. visit m init_visitor ds = Some x" by blast
  then have "\<exists>r. bind_result (visit m init_visitor ds)
                  (\<lambda>visitor. Some (Inr (nodes visitor, parsed visitor))) = Some r" for ds
    by (metis bind_result_simps(2,3) sum.exhaust)
  then show ?thesis
    by (auto simp: QueryParser_parse_def Let_def split: sum.splits)
qed

lemma parse_visitor_ok:
  assumes "QueryParser_parse lib m query schema = Some (Inr (h, ast))"
  shows "\<exists>v. visitor_ok v \<and> h = nodes v \<and> ast = parsed v"
proof -
  from assms obtain ds v where "visit m init_visitor ds = Some (Inr v)"
    and "h = nodes v" "ast = parsed v"
    by (auto simp: QueryParser_parse_def Let_def bind_result_eq_Inr
        split: sum.splits if_splits)
  with visit_init [of m ds] show ?thesis by auto
qed

section \<open>The tree the parser returns\<close>



section \<open>A well-formed store holds a tree\<close>

lemma root_skeleton_of [simp]: "root (skeleton_of h a) = a"
  by (subst skeleton_of.simps) simp

lemma skeleton_of_eq:
  assumes "well_formed h" and "a < length h"
  shows "skeleton_of h a = Sk a (map (skeleton_of h) (fields (h ! a)))"
proof -
  have "filter (\<lambda>c. a < c \<and> c < length h) (fields (h ! a)) = fields (h ! a)"
    unfolding filter_id_conv using well_formed_child [OF assms] by blast
  then show ?thesis by (subst skeleton_of.simps) simp
qed

lemma shape_skeleton_of:
  "well_formed h \<Longrightarrow> a < length h \<Longrightarrow> shape h (skeleton_of h a)"
proof (induction h a rule: skeleton_of.induct)
  case (1 h a)
  have "shape h (skeleton_of h c)" if "c \<in> set (fields (h ! a))" for c
  proof -
    from well_formed_child [OF "1.prems" that] have "a < c" "c < length h" by simp_all
    with that "1.IH" [of c] "1.prems"(1) show ?thesis by simp
  qed
  then have "list_all (shape h) (map (skeleton_of h) (fields (h ! a)))"
    by (simp add: list_all_iff)
  moreover have "map root (map (skeleton_of h) (fields (h ! a))) = fields (h ! a)"
    by (simp add: comp_def)
  ultimately show ?case
    using "1.prems" by (simp add: skeleton_of_eq)
qed

lemma addrs_skeleton_of_range:
  "well_formed h \<Longrightarrow> a < length h \<Longrightarrow> x \<in> set (addrs (skeleton_of h a)) \<Longrightarrow>
   a \<le> x \<and> x < length h"
proof (induction h a rule: skeleton_of.induct)
  case (1 h a)
  show ?case
  proof (cases "x = a")
    case True
    with "1.prems" show ?thesis by simp
  next
    case False
    with "1.prems" obtain c where c: "c \<in> set (fields (h ! a))"
      and x: "x \<in> set (addrs (skeleton_of h c))"
      by (auto simp: skeleton_of_eq)
    from well_formed_child [OF "1.prems"(1,2) c] have ac: "a < c" and cl: "c < length h"
      by simp_all
    with c "1.IH" [of c] "1.prems"(1) x have "c \<le> x \<and> x < length h" by simp
    with ac show ?thesis by simp
  qed
qed

lemma addrs_skeleton_of_parent:
  "well_formed h \<Longrightarrow> a < length h \<Longrightarrow> x \<in> set (addrs (skeleton_of h a)) \<Longrightarrow> x \<noteq> a \<Longrightarrow>
   \<exists>p. parent (h ! x) = Some p \<and> p \<in> set (addrs (skeleton_of h a))"
proof (induction h a rule: skeleton_of.induct)
  case (1 h a)
  from "1.prems" obtain c where c: "c \<in> set (fields (h ! a))"
    and x: "x \<in> set (addrs (skeleton_of h c))"
    by (auto simp: skeleton_of_eq)
  from well_formed_child [OF "1.prems"(1,2) c]
  have ac: "a < c" and cl: "c < length h" and pc: "parent (h ! c) = Some a"
    by simp_all
  have sub: "set (addrs (skeleton_of h c)) \<subseteq> set (addrs (skeleton_of h a))"
    using c "1.prems"(1,2) by (auto simp: skeleton_of_eq [of h a])
  show ?case
  proof (cases "x = c")
    case True
    with pc show ?thesis by (simp add: skeleton_of_eq [OF "1.prems"(1,2)])
  next
    case False
    with c ac cl "1.IH" [of c] "1.prems"(1) x
    obtain p where "parent (h ! x) = Some p" "p \<in> set (addrs (skeleton_of h c))" by auto
    with sub show ?thesis by blast
  qed
qed

lemma siblings_disjoint:
  assumes wf: "well_formed h" and a: "a < length h"
    and c1: "c1 \<in> set (fields (h ! a))" and c2: "c2 \<in> set (fields (h ! a))"
    and ne: "c1 \<noteq> c2"
  shows "set (addrs (skeleton_of h c1)) \<inter> set (addrs (skeleton_of h c2)) = {}"
proof -
  note w1 = well_formed_child [OF wf a c1] and w2 = well_formed_child [OF wf a c2]
  have "x \<in> set (addrs (skeleton_of h c1)) \<Longrightarrow> x \<in> set (addrs (skeleton_of h c2)) \<Longrightarrow> False"
    for x
  proof (induction x rule: less_induct)
    case (less x)
    have up: "False" if "x = c" and "c \<in> {c1, c2}" and "d \<in> {c1, c2}" and "c \<noteq> d"
      and xd: "x \<in> set (addrs (skeleton_of h d))"
      and cp: "parent (h ! c) = Some a" and dl: "d < length h" and ad: "a < d" for c d
    proof -
      from that have "x \<noteq> d" by simp
      from addrs_skeleton_of_parent [OF wf dl xd this] that(1) cp
      have "a \<in> set (addrs (skeleton_of h d))" by simp
      from addrs_skeleton_of_range [OF wf dl this] ad show False by simp
    qed
    show ?case
    proof (cases "x = c1 \<or> x = c2")
      case True
      then show ?thesis
      proof
        assume "x = c1"
        then show False using up [of c1 c2] ne less.prems w1 w2 by simp
      next
        assume "x = c2"
        then show False using up [of c2 c1] ne less.prems w1 w2 by simp
      qed
    next
      case False
      from addrs_skeleton_of_parent [OF wf w1(1) less.prems(1)] False
      obtain p where p: "parent (h ! x) = Some p" and p1: "p \<in> set (addrs (skeleton_of h c1))"
        by auto
      from addrs_skeleton_of_parent [OF wf w2(1) less.prems(2)] False p
      have p2: "p \<in> set (addrs (skeleton_of h c2))" by auto
      from addrs_skeleton_of_range [OF wf w1(1) less.prems(1)] have "x < length h" by simp
      with wf have "p < x" using p by (rule well_formed_parent_less)
      from less.IH [OF this p1 p2] show False .
    qed
  qed
  then show ?thesis by blast
qed

lemma distinct_skeleton_of:
  "well_formed h \<Longrightarrow> a < length h \<Longrightarrow> distinct (addrs (skeleton_of h a))"
proof (induction h a rule: skeleton_of.induct)
  case (1 h a)
  let ?fs = "fields (h ! a)"
  have d: "distinct ?fs" using "1.prems" unfolding well_formed_def by blast
  have each: "distinct (addrs (skeleton_of h c))" if "c \<in> set ?fs" for c
  proof -
    from well_formed_child [OF "1.prems" that] have "a < c" "c < length h" by simp_all
    with that "1.IH" [of c] "1.prems"(1) show ?thesis by simp
  qed
  have notin: "a \<notin> set (addrs (skeleton_of h c))" if "c \<in> set ?fs" for c
  proof
    assume "a \<in> set (addrs (skeleton_of h c))"
    from well_formed_child [OF "1.prems" that] addrs_skeleton_of_range [OF "1.prems"(1) _ this]
    show False by simp
  qed
  have "distinct (concat (map (\<lambda>c. addrs (skeleton_of h c)) fs))"
    if "set fs \<subseteq> set ?fs" and "distinct fs" for fs
    using that
  proof (induction fs)
    case Nil
    then show ?case by simp
  next
    case (Cons c fs)
    have "set (addrs (skeleton_of h c)) \<inter> set (addrs (skeleton_of h c')) = {}"
      if "c' \<in> set fs" for c'
    proof (rule siblings_disjoint [OF "1.prems"])
      show "c \<in> set ?fs" "c' \<in> set ?fs" using Cons.prems(1) that by auto
      show "c \<noteq> c'" using Cons.prems(2) that by auto
    qed
    then have "set (addrs (skeleton_of h c))
        \<inter> set (concat (map (\<lambda>c. addrs (skeleton_of h c)) fs)) = {}"
      by auto
    with Cons each [of c] show ?case by simp
  qed
  from this [of ?fs] d have "distinct (concat (map (\<lambda>c. addrs (skeleton_of h c)) ?fs))"
    by simp
  with notin show ?case
    by (simp add: skeleton_of_eq [OF "1.prems"] comp_def)
qed

lemma tree_skeleton_of:
  "well_formed h \<Longrightarrow> a < length h \<Longrightarrow> tree h (skeleton_of h a)"
  by (simp add: tree_def shape_skeleton_of distinct_skeleton_of)

lemma skeleton_of_covers:
  assumes wf: "well_formed h"
  shows "x < length h \<Longrightarrow> x \<in> set (addrs (skeleton_of h 0))"
proof (induction x rule: less_induct)
  case (less x)
  from wf have 0: "0 < length h" unfolding well_formed_def by simp
  show ?case
  proof (cases "x = 0")
    case True
    then show ?thesis using root_in_addrs [of "skeleton_of h 0"] by simp
  next
    case False
    with wf less.prems obtain p where p: "p < x" "parent (h ! x) = Some p"
      unfolding well_formed_def by blast
    with less.prems have pl: "p < length h" by simp
    with wf p less.prems have x: "x \<in> set (fields (h ! p))" unfolding well_formed_def by blast
    from less.IH [OF p(1) pl] have "p \<in> set (addrs (skeleton_of h 0))" .
    from shape_node [OF shape_skeleton_of [OF wf 0] distinct_skeleton_of [OF wf 0] this] x
    show ?thesis by blast
  qed
qed

lemma set_addrs_skeleton_of:
  assumes "well_formed h"
  shows "set (addrs (skeleton_of h 0)) = {..<length h}"
proof -
  from assms have 0: "0 < length h" unfolding well_formed_def by simp
  show ?thesis
    using skeleton_of_covers [OF assms] addrs_skeleton_of_range [OF assms 0] by auto
qed

section \<open>One declaration for each object-shaped selection\<close>

lemma join_Cons: "ys \<noteq> [] \<Longrightarrow> join sep (x # ys) = x @ sep @ join sep ys"
  by (cases ys) simp_all

lemma class_code_starts:
  "\<exists>rest. snd (class_code h a header) = ''\<newline>\<newline>\<newline>'' @ header @ rest"
proof -
  obtain h' lines where fl: "field_lines h (fields (h ! a)) = (h', lines)"
    by (cases "field_lines h (fields (h ! a))")
  have ne: "lines @ config_lines \<noteq> []" by (simp add: config_lines_def)
  have "snd (class_code h a header) =
          join ''\<newline>'' (''\<newline>\<newline>'' # header # (lines @ config_lines))"
    using fl by (simp add: class_code_def)
  also have "\<dots> = ''\<newline>\<newline>'' @ ''\<newline>'' @ header @ ''\<newline>'' @ join ''\<newline>'' (lines @ config_lines)"
    using ne by (simp add: join_Cons)
  finally have "snd (class_code h a header) =
      ''\<newline>\<newline>\<newline>'' @ header @ (''\<newline>'' @ join ''\<newline>'' (lines @ config_lines))"
    by simp
  then show ?thesis by (rule exI)
qed

lemma class_declaration_object_shaped:
  assumes "object_shaped h a"
  shows "\<exists>rest. class_declaration h a =
           ''\<newline>\<newline>\<newline>class '' @ unwrapped_python_type (parsed_type (h ! a)) @ rest"
proof -
  have *: "\<exists>rest. snd (class_code h a (''class '' @ n @ tl)) = ''\<newline>\<newline>\<newline>class '' @ n @ rest"
    for n tl
  proof -
    from class_code_starts [of h a "''class '' @ n @ tl"] obtain rest where
      "snd (class_code h a (''class '' @ n @ tl)) = ''\<newline>\<newline>\<newline>'' @ (''class '' @ n @ tl) @ rest"
      by (elim exE)
    then have "snd (class_code h a (''class '' @ n @ tl)) = ''\<newline>\<newline>\<newline>class '' @ n @ (tl @ rest)"
      by simp
    then show ?thesis by (rule exI)
  qed
  show ?thesis
  proof (cases "node_class (h ! a)")
    case ParsedNode
    with assms show ?thesis by (simp add: object_shaped_def)
  next
    case ParsedInlineFragmentNode
    with assms obtain p where "parent (h ! a) = Some p"
      and "\<not> is_primitive (parsed_type (h ! a))"
      by (auto simp: object_shaped_def)
    with ParsedInlineFragmentNode
      * [of "unwrapped_python_type (parsed_type (h ! a))"
            "''('' @ unwrapped_python_type (parsed_type (h ! p)) @ ''):''"]
    show ?thesis by (simp add: class_declaration_def class_code_string_def)
  next
    case ParsedClassNode
    with assms have "\<not> is_primitive (parsed_type (h ! a))" by (simp add: object_shaped_def)
    with ParsedClassNode
      * [of "unwrapped_python_type (parsed_type (h ! a))" "''(BaseModel):''"]
    show ?thesis by (simp add: class_declaration_def class_code_string_def)
  next
    case ParsedOperationNode
    with * [of "unwrapped_python_type (parsed_type (h ! a))" "''Query(BaseModel):''"]
    show ?thesis by (simp add: class_declaration_def class_code_string_def)
  qed
qed

lemma class_declaration_other:
  assumes "\<not> object_shaped h a"
  shows "class_declaration h a = ''''"
  using assms
  by (auto simp: object_shaped_def class_declaration_def class_code_string_def
      split: node_class.splits option.splits)

lemma named_operation:
  assumes "list_all resolvable_definition ds"
  shows "\<not> (get_operation_ast ds \<noteq> None \<and> operation_name (the (get_operation_ast ds)) = None)"
proof
  assume "get_operation_ast ds \<noteq> None \<and> operation_name (the (get_operation_ast ds)) = None"
  then obtain d where g: "get_operation_ast ds = Some d" and n: "operation_name d = None"
    by auto
  from g have "filter is_operation ds = [d]"
    by (simp add: get_operation_ast_def split: list.splits)
  then have "d \<in> set (filter is_operation ds)" by simp
  then have "d \<in> set ds" by simp
  with assms have "resolvable_definition d" by (simp add: list_all_iff)
  with n show False by (cases d) simp_all
qed

lemma parse_resolvable:
  assumes p: "graphql_parse lib query = Inr ds"
    and v: "graphql_validate lib schema ds = []"
    and r: "list_all resolvable_definition ds"
  shows "\<exists>h. QueryParser_parse lib m query schema = Some (Inr (h, 0)) \<and> well_formed h"
proof -
  from visit_init [of m ds] r obtain w where w: "visit m init_visitor ds = Some (Inr w)"
    and ok: "visitor_ok w" by blast
  from ok have p0: "parsed w = 0" and wf: "well_formed (nodes w)"
    unfolding visitor_ok_def by simp_all
  from named_operation [OF r] p v w p0
  have "QueryParser_parse lib m query schema = Some (Inr (nodes w, 0))"
    by (simp add: QueryParser_parse_def Let_def)
  with wf show ?thesis by blast
qed

lemma generate_text:
  assumes b: "build_client_schema lib raw_schema = Inr schema"
    and p: "QueryParser_parse lib m query schema = Some (Inr (h, a))"
    and t: "traverse fuel h a = Some (h', out)"
  shows "generate fuel lib m query raw_schema = Some (Inr (HEADER @ IMPORTS @ out @ ''\<newline>''))"
  using b p t by (simp add: generate_def)



end
